theory Spec2Isabelle
  imports Main "HOL-Library.Word"
begin

section \<open>Library functions the program calls\<close>

text \<open>
  Python strings are sequences of Unicode code points, so a string is a list of code
  points (natural numbers); ASCII literals are written through \<open>of_char\<close>.
  Bytes are 8-bit words.

  Two functions the program uses live in Python's standard library and not in the
  repository: \<^verbatim>\<open>str.isalnum\<close> (a lookup in the Unicode character database) and
  SHA-256 (\<^verbatim>\<open>hashlib.sha256\<close>). Both are parameters of the model, collected in a
  record; every theorem below holds for all values of the two parameters.
\<close>

type_synonym pychar = nat
type_synonym pystr = "pychar list"
type_synonym bytes = "8 word list"

record lib =
  isalnum :: "pychar \<Rightarrow> bool"
  sha256 :: "bytes \<Rightarrow> pystr"

definition py :: "string \<Rightarrow> pystr" where
  "py s = map of_char s"

section \<open>Name normalization\<close>

text \<open>
  \<^verbatim>\<open>
  NON_ALPHANUM_FILE_OR_FOLDER_NAME_CHARACTERS = "-_. "
  NON_ALPHANUM_FILE_OR_FOLDER_NAME_CHARACTER_REPLACEMENT = "-"

  def normalize_file_or_folder_name(filename: str) -> str:
      return "".join([
          (char if (char.isalnum() or char in NON_ALPHANUM_FILE_OR_FOLDER_NAME_CHARACTERS)
           else NON_ALPHANUM_FILE_OR_FOLDER_NAME_CHARACTER_REPLACEMENT)
          for char in filename])
  \<close>
\<close>

definition NON_ALPHANUM_FILE_OR_FOLDER_NAME_CHARACTERS :: pystr where
  "NON_ALPHANUM_FILE_OR_FOLDER_NAME_CHARACTERS = py ''-_. ''"

definition NON_ALPHANUM_FILE_OR_FOLDER_NAME_CHARACTER_REPLACEMENT :: pystr where
  "NON_ALPHANUM_FILE_OR_FOLDER_NAME_CHARACTER_REPLACEMENT = py ''-''"

definition keeps :: "lib \<Rightarrow> pychar \<Rightarrow> bool" where
  "keeps L char \<longleftrightarrow>
     isalnum L char \<or> char \<in> set NON_ALPHANUM_FILE_OR_FOLDER_NAME_CHARACTERS"

definition normalize_file_or_folder_name :: "lib \<Rightarrow> pystr \<Rightarrow> pystr" where
  "normalize_file_or_folder_name L filename =
     concat (map (\<lambda>char. if keeps L char then [char]
                          else NON_ALPHANUM_FILE_OR_FOLDER_NAME_CHARACTER_REPLACEMENT)
                 filename)"

text \<open>A name is in normalized form when normalization has nothing to replace in it.\<close>

definition is_normalized :: "lib \<Rightarrow> pystr \<Rightarrow> bool" where
  "is_normalized L s = list_all (keeps L) s"

text \<open>
  A concrete instance of the library parameters for evaluating examples: the ASCII part
  of \<^verbatim>\<open>str.isalnum\<close>, and a stand-in digest (the length of the content in unary).
\<close>

definition ascii_isalnum :: "pychar \<Rightarrow> bool" where
  "ascii_isalnum c \<longleftrightarrow> (48 \<le> c \<and> c \<le> 57) \<or> (65 \<le> c \<and> c \<le> 90) \<or> (97 \<le> c \<and> c \<le> 122)"

definition ex_lib :: lib where
  "ex_lib = \<lparr>isalnum = ascii_isalnum, sha256 = (\<lambda>bs. replicate (length bs) 104)\<rparr>"

section \<open>Progress accounting\<close>

text \<open>
  \<^verbatim>\<open>ProgressTracker\<close>: the counters of one batch. \<^verbatim>\<open>update\<close> runs under the
  tracker's lock, so it is one atomic step. The clock fields and the periodic progress
  line only print; they are left out. The terminal summary \<^verbatim>\<open>finish\<close> is modelled by
  the numbers it prints: the count in the line \<^verbatim>\<open>Total: N files\<close>, and the counts of
  the \<^verbatim>\<open>Failed:\<close> and \<^verbatim>\<open>Skipped:\<close> lines when those lines are printed.
\<close>

record ProgressTracker =
  total_files :: int
  total_size :: int
  completed_files :: int
  downloaded_bytes :: int
  failed_files :: int
  skipped_files :: int

definition new_ProgressTracker :: "int \<Rightarrow> int \<Rightarrow> ProgressTracker" where
  "new_ProgressTracker n sz =
     \<lparr>total_files = n, total_size = sz, completed_files = 0, downloaded_bytes = 0,
      failed_files = 0, skipped_files = 0\<rparr>"

definition update :: "int \<Rightarrow> bool \<Rightarrow> bool \<Rightarrow> bool \<Rightarrow> ProgressTracker \<Rightarrow> ProgressTracker" where
  "update bytes_downloaded file_completed file_failed file_skipped p =
     p\<lparr>downloaded_bytes := downloaded_bytes p + bytes_downloaded,
       completed_files := (if file_completed then completed_files p + 1 else completed_files p),
       failed_files := (if file_failed then failed_files p + 1 else failed_files p),
       skipped_files := (if file_skipped then skipped_files p + 1 else skipped_files p)\<rparr>"

record summary =
  total_line :: int
  failed_line :: "int option"
  skipped_line :: "int option"

definition finish :: "ProgressTracker \<Rightarrow> summary" where
  "finish p =
     \<lparr>total_line = completed_files p,
      failed_line = (if failed_files p > 0 then Some (failed_files p) else None),
      skipped_line = (if skipped_files p > 0 then Some (skipped_files p) else None)\<rparr>"

section \<open>Remote files and what the network answers\<close>

text \<open>
  A file entry of the listing carries its name, declared size, expected hash and download
  link. The link is represented by what the server answers on it, which is all the
  program observes of it: the connection fails (\<open>Refused\<close>, any exception of
  \<^verbatim>\<open>http.client\<close>), or a response arrives. A response with
  \<^verbatim>\<open>Content-Encoding: gzip\<close> is the HTML interstitial; the program then looks for the
  anchor with id \<^verbatim>\<open>downloadButton\<close> and its \<^verbatim>\<open>href\<close>, and requests that target.
  The body of a response is the sequence of chunks that successive
  \<^verbatim>\<open>response.read(131072)\<close> calls return; when they are used up the next read returns
  the empty chunk (end of stream) or, for a \<open>broken\<close> stream, raises.
  The entries are taken as the API produces them: the keys \<^verbatim>\<open>links\<close>, \<^verbatim>\<open>filename\<close>
  and \<^verbatim>\<open>hash\<close> present and \<^verbatim>\<open>size\<close> a decimal integer.
\<close>

datatype 'a fetched = Refused | Served 'a

record response =
  status :: int
  body :: "bytes list"
  broken :: bool

datatype page = Garbled | NoButton | NoHref | Link "response fetched"

datatype reply = Plain response | Gzip page

record rfile =
  filename :: pystr
  file_size :: int
  hash :: pystr
  normal_download :: "reply fetched"

section \<open>One transfer task: download_file\<close>

text \<open>
  \<^verbatim>\<open>download_file(file, event, limiter, progress)\<close> as \<^verbatim>\<open>download_folder\<close> calls it:
  with the batch's event, bounded semaphore and progress tracker, all three present, so
  each \<^verbatim>\<open>if limiter:\<close>, \<^verbatim>\<open>if progress:\<close> and \<^verbatim>\<open>if event and ...\<close> guard takes its
  first branch. The function runs in its own thread; it is cut into atomic steps at the
  points where it touches shared state (semaphore, event, file system, tracker, network),
  and a program counter records where the thread stands:

  \<^item> \<open>Pending\<close>: before \<^verbatim>\<open>limiter.acquire()\<close> (line 401), which blocks at value 0;
  \<^item> \<open>Verifying\<close>: lines 403-415, the existence test, the hash comparison, and either the
    skip report or the removal of the stale file;
  \<^item> \<open>CheckEvent\<close>: line 417;
  \<^item> \<open>ReleaseReturn\<close>: a release followed by return outside the \<^verbatim>\<open>try\<close> (lines 411-413
    and 418-420);
  \<^item> \<open>Connect\<close>: lines 423-431, the first request;
  \<^item> \<open>Page p\<close>: lines 433-470, reading the interstitial and the second request;
  \<^item> \<open>Status r\<close>: line 472; \<open>Open r\<close>: line 484;
  \<^item> \<open>Read r\<close>: line 486; \<open>Got chunk r\<close>: lines 488-507;
  \<^item> \<open>TryRelease\<close>: a release followed by return inside the \<^verbatim>\<open>try\<close> (lines 448-450,
    459-461, 478-480, 492-494); the return then runs the \<^verbatim>\<open>finally\<close> clause;
  \<^item> \<open>Except\<close>: the handler, lines 511-517; \<open>Finally\<close>: lines 518-520;
  \<^item> \<open>Done\<close>: the thread has ended.

  \<^verbatim>\<open>BoundedSemaphore.release\<close> raises \<^verbatim>\<open>ValueError\<close> when the value would pass the
  initial value. Inside the \<^verbatim>\<open>try\<close> that exception is caught by
  \<^verbatim>\<open>except Exception\<close>; in the \<^verbatim>\<open>finally\<close> clause and outside the \<^verbatim>\<open>try\<close> it
  leaves \<^verbatim>\<open>download_file\<close> (\<open>raised\<close>).

  The existence test, the hash and the removal of lines 407-415 are separate calls in
  the source, outside the \<^verbatim>\<open>try\<close>; they are one step here, which is what the code does
  as long as no other task removes or writes the file of that name in between. That is
  so when the local names of a batch are pairwise different, which the statements below
  that depend on it assume, and in a batch in which every file is skipped, where no task
  removes or writes any file.

  \<^verbatim>\<open>hash_file\<close> reads the file in chunks of 1024 bytes into the digest, so its result
  is the SHA-256 of the content. The directory holds regular files; \<^verbatim>\<open>open\<close> and
  \<^verbatim>\<open>f.write\<close> succeed, and a failing read stands for any I/O exception inside the
  loop. \<^verbatim>\<open>remove\<close> of a file that is gone raises inside the \<^verbatim>\<open>try\<close>. A write through
  the open handle has no effect on the directory once the name has been removed.

  Besides the program counter a task carries history fields that no step reads: the
  number of permits it acquired and of releases that succeeded, how it ended, whether an
  exception left the function, whether the handler caught a refused release, and a
  private copy \<open>mine\<close> of everything it reported to the tracker.
\<close>

datatype outcome = Skipped | Cancelled | Failed | Completed

datatype pc =
    Pending | Verifying | CheckEvent | ReleaseReturn | Connect
  | Page page | Status response | Open response | Read response | Got "8 word list" response
  | TryRelease | Except | Finally | Done

record task =
  pc :: pc
  outcome :: "outcome option"
  raised :: bool
  caught :: bool
  acquired :: nat
  released :: nat
  mine :: ProgressTracker

record shared =
  sem :: nat
  event :: bool
  fs :: "pystr \<Rightarrow> bytes option"
  progress :: ProgressTracker
  requests :: nat

definition new_task :: task where
  "new_task = \<lparr>pc = Pending, outcome = None, raised = False, caught = False,
                acquired = 0, released = 0, mine = new_ProgressTracker 0 0\<rparr>"

definition report ::
  "int \<Rightarrow> bool \<Rightarrow> bool \<Rightarrow> bool \<Rightarrow> shared \<times> task \<Rightarrow> shared \<times> task" where
  "report b c f k st =
     (case st of (sh, t) \<Rightarrow>
        (sh\<lparr>progress := update b c f k (progress sh)\<rparr>, t\<lparr>mine := update b c f k (mine t)\<rparr>))"

definition release :: "nat \<Rightarrow> shared \<Rightarrow> shared option" where
  "release K sh = (if sem sh + 1 > K then None else Some (sh\<lparr>sem := sem sh + 1\<rparr>))"

fun download_file ::
  "lib \<Rightarrow> nat \<Rightarrow> rfile \<Rightarrow> pc \<Rightarrow> shared \<Rightarrow> task \<Rightarrow> (shared \<times> task) option" where
  "download_file L K file Pending sh t =
     (if sem sh = 0 then None
      else Some (sh\<lparr>sem := sem sh - 1\<rparr>, t\<lparr>pc := Verifying, acquired := acquired t + 1\<rparr>))"
| "download_file L K file Verifying sh t =
     (let name = normalize_file_or_folder_name L (filename file) in
      case fs sh name of
        None \<Rightarrow> Some (sh, t\<lparr>pc := CheckEvent\<rparr>)
      | Some content \<Rightarrow>
          if sha256 L content = hash file
          then Some (report (file_size file) False False True
                       (sh, t\<lparr>pc := ReleaseReturn, outcome := Some Skipped\<rparr>))
          else Some (sh\<lparr>fs := (fs sh)(name := None)\<rparr>, t\<lparr>pc := CheckEvent\<rparr>))"
| "download_file L K file CheckEvent sh t =
     (if event sh then Some (sh, t\<lparr>pc := ReleaseReturn, outcome := Some Cancelled\<rparr>)
      else Some (sh, t\<lparr>pc := Connect\<rparr>))"
| "download_file L K file ReleaseReturn sh t =
     (case release K sh of
        None \<Rightarrow> Some (sh, t\<lparr>pc := Done, raised := True\<rparr>)
      | Some sh' \<Rightarrow> Some (sh', t\<lparr>pc := Done, released := released t + 1\<rparr>))"
| "download_file L K file Connect sh t =
     (let sh' = sh\<lparr>requests := requests sh + 1\<rparr> in
      case normal_download file of
        Refused \<Rightarrow> Some (sh', t\<lparr>pc := Except\<rparr>)
      | Served (Plain r) \<Rightarrow> Some (sh', t\<lparr>pc := Status r\<rparr>)
      | Served (Gzip p) \<Rightarrow> Some (sh', t\<lparr>pc := Page p\<rparr>))"
| "download_file L K file (Page p) sh t =
     (case p of
        Garbled \<Rightarrow> Some (sh, t\<lparr>pc := Except\<rparr>)
      | NoButton \<Rightarrow>
          Some (report 0 False True False (sh, t\<lparr>pc := TryRelease, outcome := Some Failed\<rparr>))
      | NoHref \<Rightarrow>
          Some (report 0 False True False (sh, t\<lparr>pc := TryRelease, outcome := Some Failed\<rparr>))
      | Link Refused \<Rightarrow> Some (sh\<lparr>requests := requests sh + 1\<rparr>, t\<lparr>pc := Except\<rparr>)
      | Link (Served r) \<Rightarrow> Some (sh\<lparr>requests := requests sh + 1\<rparr>, t\<lparr>pc := Status r\<rparr>))"
| "download_file L K file (Status r) sh t =
     (if 400 \<le> status r \<and> status r < 600
      then Some (report 0 False True False (sh, t\<lparr>pc := TryRelease, outcome := Some Failed\<rparr>))
      else Some (sh, t\<lparr>pc := Open r\<rparr>))"
| "download_file L K file (Open r) sh t =
     (let name = normalize_file_or_folder_name L (filename file) in
      Some (sh\<lparr>fs := (fs sh)(name \<mapsto> [])\<rparr>, t\<lparr>pc := Read r\<rparr>))"
| "download_file L K file (Read r) sh t =
     (case body r of
        [] \<Rightarrow> if broken r then Some (sh, t\<lparr>pc := Except\<rparr>) else Some (sh, t\<lparr>pc := Got [] r\<rparr>)
      | chunk # rest \<Rightarrow> Some (sh, t\<lparr>pc := Got chunk (r\<lparr>body := rest\<rparr>)\<rparr>))"
| "download_file L K file (Got chunk r) sh t =
     (let name = normalize_file_or_folder_name L (filename file) in
      if event sh then
        (case fs sh name of
           None \<Rightarrow> Some (sh, t\<lparr>pc := Except\<rparr>)
         | Some written \<Rightarrow>
             Some (sh\<lparr>fs := (fs sh)(name := None)\<rparr>,
                   t\<lparr>pc := TryRelease, outcome := Some Cancelled\<rparr>))
      else if chunk = [] then
        Some (report 0 True False False (sh, t\<lparr>pc := Finally, outcome := Some Completed\<rparr>))
      else
        Some (report (int (length chunk)) False False False
                (sh\<lparr>fs := (case fs sh name of None \<Rightarrow> fs sh
                            | Some written \<Rightarrow> (fs sh)(name \<mapsto> written @ chunk))\<rparr>,
                 t\<lparr>pc := Read r\<rparr>)))"
| "download_file L K file TryRelease sh t =
     (case release K sh of
        None \<Rightarrow> Some (sh, t\<lparr>pc := Except, caught := True\<rparr>)
      | Some sh' \<Rightarrow> Some (sh', t\<lparr>pc := Finally, released := released t + 1\<rparr>))"
| "download_file L K file Except sh t =
     (let name = normalize_file_or_folder_name L (filename file) in
      Some (report 0 False True False
              (sh\<lparr>fs := (fs sh)(name := None)\<rparr>, t\<lparr>pc := Finally, outcome := Some Failed\<rparr>)))"
| "download_file L K file Finally sh t =
     (case release K sh of
        None \<Rightarrow> Some (sh, t\<lparr>pc := Done, raised := True\<rparr>)
      | Some sh' \<Rightarrow> Some (sh', t\<lparr>pc := Done, released := released t + 1\<rparr>))"
| "download_file L K file Done sh t = None"

definition tstep :: "lib \<Rightarrow> nat \<Rightarrow> rfile \<Rightarrow> shared \<Rightarrow> task \<Rightarrow> (shared \<times> task) option" where
  "tstep L K file sh t = download_file L K file (pc t) sh t"

section \<open>The batch driver: download_folder\<close>

text \<open>
  \<^verbatim>\<open>download_folder\<close> after the listing has been fetched: \<open>data\<close> is the list of file
  entries, \<open>threads_num\<close> the initial value of the bounded semaphore (a natural number:
  \<^verbatim>\<open>BoundedSemaphore\<close> refuses a negative value before any thread exists), and \<open>disk\<close>
  the regular files of the current directory when the batch starts. An empty listing
  returns before any thread is made. Otherwise one thread per file is started and the
  driver polls until no thread is alive, then prints the summary (\<open>Finished\<close>). A
  \<^verbatim>\<open>KeyboardInterrupt\<close> during the wait sets the event, joins the threads in list order
  and exits (\<open>Exited\<close>).

  The scheduler is not known, so a run is a sequence of actions: thread \<open>i\<close> makes its
  next step, the driver's poll succeeds, the interrupt arrives, or the driver's current
  join returns.
\<close>

datatype driver = Waiting | Joining nat | Finished | Exited

record batch =
  threads_num :: nat
  data :: "rfile list"
  disk :: "pystr \<Rightarrow> bytes option"

record state =
  shared :: shared
  tasks :: "task list"
  driver :: driver

datatype action = Run nat | Poll | Interrupt | Join

definition download_folder :: "batch \<Rightarrow> state" where
  "download_folder B =
     \<lparr>shared = \<lparr>sem = threads_num B, event = False, fs = disk B,
                progress = new_ProgressTracker (int (length (data B)))
                             (sum_list (map file_size (data B))),
                requests = 0\<rparr>,
      tasks = replicate (length (data B)) new_task,
      driver = Waiting\<rparr>"

definition all_dead :: "state \<Rightarrow> bool" where
  "all_dead s = list_all (\<lambda>t. pc t = Done) (tasks s)"

fun step :: "lib \<Rightarrow> batch \<Rightarrow> action \<Rightarrow> state \<Rightarrow> state option" where
  "step L B (Run i) s =
     (if i < length (tasks s) then
        (case tstep L (threads_num B) (data B ! i) (shared s) (tasks s ! i) of
           None \<Rightarrow> None
         | Some (sh, t) \<Rightarrow> Some (s\<lparr>shared := sh, tasks := (tasks s)[i := t]\<rparr>))
      else None)"
| "step L B Poll s =
     (if driver s = Waiting \<and> all_dead s then Some (s\<lparr>driver := Finished\<rparr>) else None)"
| "step L B Interrupt s =
     (if driver s = Waiting
      then Some (s\<lparr>shared := (shared s)\<lparr>event := True\<rparr>, driver := Joining 0\<rparr>)
      else None)"
| "step L B Join s =
     (case driver s of
        Joining i \<Rightarrow>
          if i < length (tasks s)
          then (if pc (tasks s ! i) = Done then Some (s\<lparr>driver := Joining (i + 1)\<rparr>) else None)
          else Some (s\<lparr>driver := Exited\<rparr>)
      | _ \<Rightarrow> None)"

fun run :: "lib \<Rightarrow> batch \<Rightarrow> action list \<Rightarrow> state \<Rightarrow> state option" where
  "run L B [] s = Some s"
| "run L B (a # as) s = (case step L B a s of None \<Rightarrow> None | Some s' \<Rightarrow> run L B as s')"

inductive reach :: "lib \<Rightarrow> batch \<Rightarrow> state \<Rightarrow> bool" for L B where
  start: "data B \<noteq> [] \<Longrightarrow> reach L B (download_folder B)"
| step: "reach L B s \<Longrightarrow> step L B a s = Some s' \<Longrightarrow> reach L B s'"

section \<open>The directory walker: get_folders\<close>

text \<open>
  \<^verbatim>\<open>get_folders(folder_key, folder_name, threads_num, first)\<close> is modelled by the
  directory operations it performs, in order. A remote folder is its key, the name the
  API shows for it and its subfolders as the listing returns them. On the first call the
  folder's name is fetched (a status other than 200 exits with code 1), normalized and
  joined to the destination (\<^verbatim>\<open>os.path.join\<close> of POSIX, 47 being the slash). Every
  call then creates the directory \<open>folder_name\<close> if it is absent, changes into it and
  downloads the folder's files as one batch; for each subfolder it calls itself with the
  subfolder's key and \<^verbatim>\<open>folder["name"]\<close> and then changes to the parent directory.
\<close>

datatype rfolder = RFolder (folderkey: pystr) (foldername: pystr) (folders: "rfolder list")

datatype fsop = Makedirs pystr | Chdir pystr | Batch pystr

datatype exit = Exit1

definition path_join :: "pystr \<Rightarrow> pystr \<Rightarrow> pystr" where
  "path_join a b =
     (if b \<noteq> [] \<and> hd b = 47 then b
      else if a = [] \<or> last a = 47 then a @ b
      else a @ [47] @ b)"

fun get_folders_body :: "rfolder \<Rightarrow> pystr \<Rightarrow> fsop list" where
  "get_folders_body (RFolder folder_key shown subs) folder_name =
     [Makedirs folder_name, Chdir folder_name, Batch folder_key]
     @ concat (map (\<lambda>folder. get_folders_body folder (foldername folder) @ [Chdir (py ''..'')])
                   subs)"

definition get_folders :: "lib \<Rightarrow> int \<Rightarrow> rfolder \<Rightarrow> pystr \<Rightarrow> bool \<Rightarrow> exit + fsop list" where
  "get_folders L status_code folder folder_name first =
     (if first then
        (if status_code \<noteq> 200 then Inl Exit1
         else Inr (get_folders_body folder
                     (path_join folder_name
                        (normalize_file_or_folder_name L (foldername folder)))))
      else Inr (get_folders_body folder folder_name))"

section \<open>Observations on states\<close>

text \<open>
  A task holds a permit from its acquire until its first successful release. The tally
  is the sum of the three file counters.
\<close>

definition holding :: "task \<Rightarrow> bool" where
  "holding t \<longleftrightarrow> released t < acquired t"

definition permits_held :: "state \<Rightarrow> nat" where
  "permits_held s = length (filter holding (tasks s))"

definition tally :: "ProgressTracker \<Rightarrow> int" where
  "tally p = completed_files p + failed_files p + skipped_files p"

definition cancelled :: "state \<Rightarrow> int" where
  "cancelled s = int (length (filter (\<lambda>t. outcome t = Some Cancelled) (tasks s)))"

definition local_name :: "lib \<Rightarrow> rfile \<Rightarrow> pystr" where
  "local_name L file = normalize_file_or_folder_name L (filename file)"

text \<open>The bytes counter of a state, and which target files exist in it.\<close>

definition bytes_counted :: "state \<Rightarrow> int" where
  "bytes_counted s = downloaded_bytes (progress (shared s))"

definition present :: "lib \<Rightarrow> batch \<Rightarrow> state \<Rightarrow> bool list" where
  "present L B s = map (\<lambda>f. fs (shared s) (local_name L f) \<noteq> None) (data B)"

section \<open>What the server delivers for a file\<close>

text \<open>
  The response whose status line 472 tests is the first response, or the response to the
  second request when the first was an interstitial with a link. The bytes the loop of
  lines 485-502 can write are the chunks up to the first empty one, which the loop takes
  for the end of the stream; nothing is written for an error status.
\<close>

fun delivered :: "bytes list \<Rightarrow> bytes" where
  "delivered [] = []"
| "delivered (chunk # rest) = (if chunk = [] then [] else chunk @ delivered rest)"

definition answer :: "rfile \<Rightarrow> response option" where
  "answer file =
     (case normal_download file of
        Served (Plain r) \<Rightarrow> Some r
      | Served (Gzip (Link (Served r))) \<Rightarrow> Some r
      | _ \<Rightarrow> None)"

definition body_of :: "rfile \<Rightarrow> bytes" where
  "body_of file =
     (case answer file of
        None \<Rightarrow> []
      | Some r \<Rightarrow> if 400 \<le> status r \<and> status r < 600 then [] else delivered (body r))"

section \<open>Invariants of a task\<close>

text \<open>
  Each invariant relates the program counter of a task to its history fields.
  \<open>permit_inv\<close>: acquires and releases. \<open>count_inv\<close>: unless the handler caught a
  refused release, the task has been counted in exactly one file counter if it has been
  skipped, failed or completed, and in none otherwise. \<open>bytes_inv\<close>: the bytes it
  reported are the declared size (a skip) or a part of the delivered body.
\<close>

definition permit_inv :: "task \<Rightarrow> bool" where
  "permit_inv t =
     (case pc t of
        Pending \<Rightarrow> acquired t = 0 \<and> released t = 0
      | Finally \<Rightarrow> acquired t = 1 \<and> released t \<le> 1
      | Done \<Rightarrow> acquired t = 1 \<and> released t \<le> 2
      | _ \<Rightarrow> acquired t = 1 \<and> released t = 0)"

definition expected :: "task \<Rightarrow> int" where
  "expected t = (case outcome t of None \<Rightarrow> 0 | Some Cancelled \<Rightarrow> 0 | Some _ \<Rightarrow> 1)"

definition count_inv :: "task \<Rightarrow> bool" where
  "count_inv t =
     (case pc t of
        ReleaseReturn \<Rightarrow>
          \<not> caught t \<and> tally (mine t) = expected t
          \<and> (outcome t = Some Skipped \<or> outcome t = Some Cancelled)
      | TryRelease \<Rightarrow>
          \<not> caught t \<and> tally (mine t) = expected t
          \<and> (outcome t = Some Failed \<or> outcome t = Some Cancelled)
      | Except \<Rightarrow> caught t \<or> (outcome t = None \<and> tally (mine t) = 0)
      | Finally \<Rightarrow> caught t \<or> (outcome t \<noteq> None \<and> tally (mine t) = expected t)
      | Done \<Rightarrow> caught t \<or> (outcome t \<noteq> None \<and> tally (mine t) = expected t)
      | _ \<Rightarrow> \<not> caught t \<and> outcome t = None \<and> tally (mine t) = 0)"

definition bytes_inv :: "rfile \<Rightarrow> task \<Rightarrow> bool" where
  "bytes_inv file t =
     (let b = downloaded_bytes (mine t) in
      case pc t of
        Pending \<Rightarrow> b = 0
      | Verifying \<Rightarrow> b = 0
      | CheckEvent \<Rightarrow> b = 0
      | Connect \<Rightarrow> b = 0
      | Page p \<Rightarrow> b = 0 \<and> normal_download file = Served (Gzip p)
      | Status r \<Rightarrow> b = 0 \<and> answer file = Some r
      | Open r \<Rightarrow> b = 0 \<and> body_of file = delivered (body r)
      | Read r \<Rightarrow> 0 \<le> b \<and> b + int (length (delivered (body r))) = int (length (body_of file))
      | Got chunk r \<Rightarrow>
          0 \<le> b \<and> b + int (length (delivered (chunk # body r))) = int (length (body_of file))
      | ReleaseReturn \<Rightarrow> b = 0 \<or> b = file_size file
      | _ \<Rightarrow> (0 \<le> b \<and> b \<le> int (length (body_of file))) \<or> b = file_size file)"

definition reported ::
  "ProgressTracker \<Rightarrow> ProgressTracker \<Rightarrow> ProgressTracker \<Rightarrow> ProgressTracker \<Rightarrow> bool" where
  "reported p m p' m' \<longleftrightarrow>
     (p' = p \<and> m' = m) \<or> (\<exists>b c e k. p' = update b c e k p \<and> m' = update b c e k m)"

text \<open>
  \<open>sum_inv\<close>: the tracker's counters are the sums of what the tasks reported, and the
  totals fixed at the start of the batch do not change.
\<close>

definition sum_inv :: "batch \<Rightarrow> state \<Rightarrow> bool" where
  "sum_inv B s \<longleftrightarrow>
     completed_files (progress (shared s)) = (\<Sum>t\<leftarrow>tasks s. completed_files (mine t))
   \<and> failed_files (progress (shared s)) = (\<Sum>t\<leftarrow>tasks s. failed_files (mine t))
   \<and> skipped_files (progress (shared s)) = (\<Sum>t\<leftarrow>tasks s. skipped_files (mine t))
   \<and> downloaded_bytes (progress (shared s)) = (\<Sum>t\<leftarrow>tasks s. downloaded_bytes (mine t))
   \<and> total_files (progress (shared s)) = int (length (data B))
   \<and> total_size (progress (shared s)) = sum_list (map file_size (data B))"

section \<open>Files that are already present\<close>

text \<open>
  A file matches when the directory holds, under its local name, content whose digest is
  the expected hash. \<open>skip_report\<close> is what a task has reported when all it did was the
  skip of lines 409-410. \<open>skip_inv\<close> and \<open>idem_inv\<close> describe a batch in which every
  file matches: tasks only wait, verify, release and end, the directory is as it was, and
  no request has been issued.
\<close>

definition matches :: "lib \<Rightarrow> batch \<Rightarrow> rfile \<Rightarrow> bool" where
  "matches L B file =
     (case disk B (local_name L file) of
        None \<Rightarrow> False
      | Some content \<Rightarrow> sha256 L content = hash file)"

definition skip_report :: "rfile \<Rightarrow> ProgressTracker" where
  "skip_report file = update (file_size file) False False True (new_ProgressTracker 0 0)"

definition skip_inv :: "rfile \<Rightarrow> task \<Rightarrow> bool" where
  "skip_inv file t =
     (case pc t of
        Pending \<Rightarrow> mine t = new_ProgressTracker 0 0
      | Verifying \<Rightarrow> mine t = new_ProgressTracker 0 0
      | ReleaseReturn \<Rightarrow> outcome t = Some Skipped \<and> mine t = skip_report file
      | Done \<Rightarrow> outcome t = Some Skipped \<and> mine t = skip_report file
      | _ \<Rightarrow> False)"

definition idem_inv :: "batch \<Rightarrow> state \<Rightarrow> bool" where
  "idem_inv B s \<longleftrightarrow>
     fs (shared s) = disk B \<and> requests (shared s) = 0
     \<and> (\<forall>i < length (tasks s). skip_inv (data B ! i) (tasks s ! i))"

text \<open>
  In such a batch a task has at most three steps left (\<open>rank\<close>); \<open>remaining\<close> adds
  them up over the batch. A task is \<open>busy\<close> while it holds its permit.
\<close>

definition rank :: "pc \<Rightarrow> nat" where
  "rank p = (case p of Pending \<Rightarrow> 3 | Verifying \<Rightarrow> 2 | ReleaseReturn \<Rightarrow> 1 | _ \<Rightarrow> 0)"

definition remaining :: "state \<Rightarrow> nat" where
  "remaining s = (\<Sum>t\<leftarrow>tasks s. rank (pc t))"

definition busy :: "task \<Rightarrow> nat" where
  "busy t = (if pc t = Verifying \<or> pc t = ReleaseReturn then 1 else 0)"

section \<open>Target files\<close>

text \<open>
  \<open>served_body\<close> is the complete content the loop writes when the status is no error and
  the stream is read to its end. \<open>ended\<close> says how the target file of a task stands
  given how the task ended: a skipped task left the verified copy, a completed one wrote
  the complete body, a failed or cancelled one left no file. \<open>file_inv\<close> relates the
  program counter of a task to the file at its local name, provided no other task uses
  that name. \<open>intact\<close>: the target file is absent, complete, or the verified copy that
  was there before, so it is not a partially written file. \<open>join_inv\<close>: the driver has
  joined the threads it went past. \<open>skip_one_inv\<close>: a task whose file matches can only
  wait, verify, release and end, and ends skipped.
\<close>

definition served_body :: "rfile \<Rightarrow> bytes option" where
  "served_body file =
     (case answer file of
        None \<Rightarrow> None
      | Some r \<Rightarrow> if 400 \<le> status r \<and> status r < 600 then None else Some (delivered (body r)))"

definition ended :: "lib \<Rightarrow> batch \<Rightarrow> rfile \<Rightarrow> bytes option \<Rightarrow> outcome option \<Rightarrow> bool" where
  "ended L B file cur out =
     (case out of
        None \<Rightarrow> False
      | Some Skipped \<Rightarrow> cur = disk B (local_name L file) \<and> matches L B file
      | Some Completed \<Rightarrow> cur \<noteq> None \<and> cur = served_body file
      | Some Failed \<Rightarrow> cur = None
      | Some Cancelled \<Rightarrow> cur = None)"

definition file_inv :: "lib \<Rightarrow> batch \<Rightarrow> rfile \<Rightarrow> shared \<Rightarrow> task \<Rightarrow> bool" where
  "file_inv L B file sh t =
     (let name = local_name L file; cur = fs sh name in
      case pc t of
        Pending \<Rightarrow> cur = disk B name
      | Verifying \<Rightarrow> cur = disk B name
      | CheckEvent \<Rightarrow> cur = None
      | Connect \<Rightarrow> cur = None
      | Page p \<Rightarrow> cur = None \<and> normal_download file = Served (Gzip p)
      | Status r \<Rightarrow> cur = None \<and> answer file = Some r
      | Open r \<Rightarrow> cur = None \<and> served_body file = Some (delivered (body r))
      | Read r \<Rightarrow>
          (case cur of
             None \<Rightarrow> False
           | Some written \<Rightarrow> served_body file = Some (written @ delivered (body r)))
      | Got chunk r \<Rightarrow>
          (case cur of
             None \<Rightarrow> False
           | Some written \<Rightarrow> served_body file = Some (written @ delivered (chunk # body r)))
      | ReleaseReturn \<Rightarrow>
          (outcome t = Some Skipped \<or> outcome t = Some Cancelled) \<and> ended L B file cur (outcome t)
      | TryRelease \<Rightarrow>
          (outcome t = Some Failed \<or> outcome t = Some Cancelled) \<and> cur = None
      | Except \<Rightarrow> True
      | Finally \<Rightarrow> ended L B file cur (outcome t)
      | Done \<Rightarrow> ended L B file cur (outcome t))"

definition intact :: "lib \<Rightarrow> batch \<Rightarrow> shared \<Rightarrow> rfile \<Rightarrow> bool" where
  "intact L B sh file =
     (case fs sh (local_name L file) of
        None \<Rightarrow> True
      | Some content \<Rightarrow>
          served_body file = Some content
          \<or> (disk B (local_name L file) = Some content \<and> sha256 L content = hash file))"

definition join_inv :: "state \<Rightarrow> bool" where
  "join_inv s =
     (case driver s of
        Waiting \<Rightarrow> True
      | Joining i \<Rightarrow> list_all (\<lambda>t. pc t = Done) (take i (tasks s))
      | Finished \<Rightarrow> all_dead s
      | Exited \<Rightarrow> all_dead s)"

definition skip_one_inv :: "lib \<Rightarrow> batch \<Rightarrow> rfile \<Rightarrow> shared \<Rightarrow> task \<Rightarrow> bool" where
  "skip_one_inv L B file sh t \<longleftrightarrow>
     \<not> matches L B file
     \<or> (case pc t of
          Pending \<Rightarrow> fs sh (local_name L file) = disk B (local_name L file)
                     \<and> mine t = new_ProgressTracker 0 0
        | Verifying \<Rightarrow> fs sh (local_name L file) = disk B (local_name L file)
                     \<and> mine t = new_ProgressTracker 0 0
        | ReleaseReturn \<Rightarrow> outcome t = Some Skipped \<and> mine t = skip_report file
        | Done \<Rightarrow> outcome t = Some Skipped \<and> mine t = skip_report file
        | _ \<Rightarrow> False)"

text \<open>
  \<open>counts_nonneg\<close>: a task has reported no negative count. \<open>skip_counted\<close>: task \<open>i\<close>
  has ended skipped and has been counted as such: it reported one skip, no completion
  and no failure, and the declared size of its file as bytes; the tracker's counters are
  the sums of what the tasks reported, so the skip is in \<open>skipped_files\<close> and not in
  \<open>completed_files\<close>; the summary prints \<open>completed_files\<close> in its line
  \<^verbatim>\<open>Total: N files\<close> and prints the line \<^verbatim>\<open>Skipped: N files\<close> with a count of at
  least one.
\<close>

definition counts_nonneg :: "task \<Rightarrow> bool" where
  "counts_nonneg t \<longleftrightarrow>
     0 \<le> completed_files (mine t) \<and> 0 \<le> failed_files (mine t) \<and> 0 \<le> skipped_files (mine t)"

definition skip_counted :: "batch \<Rightarrow> state \<Rightarrow> nat \<Rightarrow> bool" where
  "skip_counted B s i \<longleftrightarrow>
     outcome (tasks s ! i) = Some Skipped
   \<and> skipped_files (mine (tasks s ! i)) = 1
   \<and> completed_files (mine (tasks s ! i)) = 0
   \<and> failed_files (mine (tasks s ! i)) = 0
   \<and> downloaded_bytes (mine (tasks s ! i)) = file_size (data B ! i)
   \<and> skipped_files (progress (shared s)) = (\<Sum>t\<leftarrow>tasks s. skipped_files (mine t))
   \<and> completed_files (progress (shared s)) = (\<Sum>t\<leftarrow>tasks s. completed_files (mine t))
   \<and> downloaded_bytes (progress (shared s)) = (\<Sum>t\<leftarrow>tasks s. downloaded_bytes (mine t))
   \<and> total_line (finish (progress (shared s))) = completed_files (progress (shared s))
   \<and> skipped_line (finish (progress (shared s))) = Some (skipped_files (progress (shared s)))
   \<and> 1 \<le> skipped_files (progress (shared s))"

section \<open>Example inputs\<close>

text \<open>
  Files used to evaluate the model: one served directly with the body \<open>[1,2] [3]\<close>, one
  whose stream breaks after the first chunk, one answered 404, and one answered with an
  interstitial that has no download button. The stand-in digest of three bytes is
  \<open>hhh\<close>.
\<close>

definition ex_ok :: "string \<Rightarrow> rfile" where
  "ex_ok n = \<lparr>filename = py n, file_size = 3, hash = py ''hhh'',
     normal_download = Served (Plain \<lparr>status = 200, body = [[1, 2], [3]], broken = False\<rparr>)\<rparr>"

definition ex_broken :: "string \<Rightarrow> rfile" where
  "ex_broken n = \<lparr>filename = py n, file_size = 3, hash = py ''hhh'',
     normal_download = Served (Plain \<lparr>status = 200, body = [[1, 2]], broken = True\<rparr>)\<rparr>"

definition ex_404 :: "string \<Rightarrow> rfile" where
  "ex_404 n = \<lparr>filename = py n, file_size = 3, hash = py ''hhh'',
     normal_download = Served (Plain \<lparr>status = 404, body = [], broken = False\<rparr>)\<rparr>"

definition ex_nobutton :: "string \<Rightarrow> rfile" where
  "ex_nobutton n = \<lparr>filename = py n, file_size = 3, hash = py ''hhh'',
     normal_download = Served (Gzip NoButton)\<rparr>"

definition ex_batch :: "nat \<Rightarrow> rfile list \<Rightarrow> batch" where
  "ex_batch k fs0 = \<lparr>threads_num = k, data = fs0, disk = Map.empty\<rparr>"

definition times :: "nat \<Rightarrow> action \<Rightarrow> action list" where
  "times n a = replicate n a"

text \<open>
  Two files under a limit of one. Thread 0 downloads its file to the end; the interrupt
  arrives after its last look at the event; thread 1 then gets the permit, finds the
  event set and returns; the driver joins both threads and exits.
\<close>

definition ex_two :: batch where
  "ex_two = ex_batch 1 [ex_ok ''a'', ex_ok ''b'']"

definition ex_late_interrupt :: "action list" where
  "ex_late_interrupt = times 12 (Run 0) @ [Interrupt, Run 0] @ times 4 (Run 1) @ times 3 Join"

text \<open>
  One file whose stream breaks after the first chunk, run to the end and polled; and one
  good file whose download is interrupted after the first chunk has been written.
\<close>

definition ex_one_broken :: batch where
  "ex_one_broken = ex_batch 1 [ex_broken ''a'']"

definition ex_one :: batch where
  "ex_one = ex_batch 1 [ex_ok ''a'']"

definition ex_stream_fails :: "action list" where
  "ex_stream_fails = times 11 (Run 0) @ [Poll]"

definition ex_cancel_midstream :: "action list" where
  "ex_cancel_midstream = times 8 (Run 0) @ [Interrupt] @ times 4 (Run 0) @ times 2 Join"

text \<open>A root folder shown as \<open>my:root\<close> with one subfolder shown as \<open>a:b\<close>.\<close>

definition ex_tree :: rfolder where
  "ex_tree = RFolder (py ''k0'') (py ''my:root'') [RFolder (py ''k1'') (py ''a:b'') []]"

text \<open>A single file behind an interstitial without download button, default limit 20.\<close>

definition ex_default :: batch where
  "ex_default = ex_batch 20 [ex_nobutton ''a'']"

text \<open>One file that is present with the expected digest; the task skips it.\<close>

definition ex_present :: batch where
  "ex_present = \<lparr>threads_num = 1, data = [ex_ok ''a''], disk = [py ''a'' \<mapsto> [1, 2, 3]]\<rparr>"

definition ex_skip :: "action list" where
  "ex_skip = times 3 (Run 0) @ [Poll]"

text \<open>
  Two files under a limit of two, the first present with the expected digest and skipped,
  the second downloaded; and the interrupt of \<open>ex_two\<close> arriving while thread 0 has
  written the first chunk and thread 1 still waits for the permit.
\<close>

definition ex_mixed :: batch where
  "ex_mixed = \<lparr>threads_num = 2, data = [ex_ok ''a'', ex_ok ''b''],
               disk = [py ''a'' \<mapsto> [1, 2, 3]]\<rparr>"

definition ex_skip_and_download :: "action list" where
  "ex_skip_and_download = times 3 (Run 0) @ times 13 (Run 1) @ [Poll]"

definition ex_interrupt_two :: "action list" where
  "ex_interrupt_two =
     times 8 (Run 0) @ [Interrupt] @ times 4 (Run 0) @ times 4 (Run 1) @ times 3 Join"

section \<open>Properties of normalization\<close>

lemma replacement_kept: "keeps L 45"
  by (simp add: keeps_def NON_ALPHANUM_FILE_OR_FOLDER_NAME_CHARACTERS_def py_def)

lemma normalize_Nil: "normalize_file_or_folder_name L [] = []"
  by (simp add: normalize_file_or_folder_name_def)

lemma normalize_Cons:
  "normalize_file_or_folder_name L (c # s) =
     (if keeps L c then c else 45) # normalize_file_or_folder_name L s"
  by (simp add: normalize_file_or_folder_name_def
      NON_ALPHANUM_FILE_OR_FOLDER_NAME_CHARACTER_REPLACEMENT_def py_def)

lemma normalize_is_normalized: "is_normalized L (normalize_file_or_folder_name L s)"
  by (induction s) (simp_all add: normalize_Nil normalize_Cons is_normalized_def replacement_kept)

lemma normalize_fixes_normalized:
  "is_normalized L s \<Longrightarrow> normalize_file_or_folder_name L s = s"
  by (induction s) (simp_all add: normalize_Nil normalize_Cons is_normalized_def)

text \<open>
  C9. Normalization is a function of its argument (so deterministic), it is idempotent,
  its results are in normalized form, and a name already in normalized form is returned
  unchanged.
\<close>

theorem normalize_idempotent:
  "normalize_file_or_folder_name L (normalize_file_or_folder_name L s)
     = normalize_file_or_folder_name L s
   \<and> is_normalized L (normalize_file_or_folder_name L s)
   \<and> (is_normalized L s \<longrightarrow> normalize_file_or_folder_name L s = s)"
  using normalize_is_normalized [of L s] normalize_fixes_normalized [of L]
  by blast

theorem normalize_idempotent_witness:
  "is_normalized ex_lib (py ''a-b c_1.txt'')
   \<and> normalize_file_or_folder_name ex_lib (py ''a-b c_1.txt'') = py ''a-b c_1.txt''"
proof -
  have h: "is_normalized ex_lib (py ''a-b c_1.txt'')"
    by (simp add: is_normalized_def keeps_def ex_lib_def ascii_isalnum_def py_def
        NON_ALPHANUM_FILE_OR_FOLDER_NAME_CHARACTERS_def)
  from normalize_idempotent [of ex_lib "py ''a-b c_1.txt''"] h show ?thesis
    by blast
qed

section \<open>Runs and reachable states\<close>

lemma reach_length: "reach L B s \<Longrightarrow> length (tasks s) = length (data B)"
proof (induction rule: reach.induct)
  case start
  show ?case by (simp add: download_folder_def)
next
  case (step s a s')
  then show ?case
    by (cases a) (auto split: if_splits option.splits driver.splits)
qed

lemma run_reach:
  "reach L B s \<Longrightarrow> run L B acts s = Some s' \<Longrightarrow> reach L B s'"
proof (induction acts arbitrary: s)
  case Nil
  then show ?case by simp
next
  case (Cons a acts)
  then show ?case
    by (auto split: option.splits intro: reach.step)
qed

lemma run_reach_the:
  assumes "data B \<noteq> []" and "run L B acts (download_folder B) \<noteq> None"
  shows "reach L B (the (run L B acts (download_folder B)))"
proof -
  from assms(2) obtain s' where "run L B acts (download_folder B) = Some s'"
    by auto
  with run_reach [OF reach.start [OF assms(1)]] show ?thesis
    by simp
qed

text \<open>
  An invariant that speaks of one task and its file only holds in every reachable state
  as soon as a fresh task has it and every step of \<open>download_file\<close> keeps it.
\<close>

lemma reach_local:
  assumes init: "\<And>f. P f new_task"
    and pres: "\<And>f sh t sh' t'.
      P f t \<Longrightarrow> tstep L (threads_num B) f sh t = Some (sh', t') \<Longrightarrow> P f t'"
    and r: "reach L B s"
  shows "\<forall>i < length (tasks s). P (data B ! i) (tasks s ! i)"
  using r
proof (induction rule: reach.induct)
  case start
  show ?case by (simp add: download_folder_def init)
next
  case (step s a s')
  show ?case
  proof (cases a)
    case (Run i)
    with step.hyps(2) obtain sh t where i: "i < length (tasks s)"
      and ts: "tstep L (threads_num B) (data B ! i) (shared s) (tasks s ! i) = Some (sh, t)"
      and s': "s' = s\<lparr>shared := sh, tasks := (tasks s)[i := t]\<rparr>"
      by (auto split: if_splits option.splits)
    from step.IH i have "P (data B ! i) (tasks s ! i)" by simp
    from pres [OF this ts] have "P (data B ! i) t" .
    with step.IH i show ?thesis
      by (auto simp: s' nth_list_update)
  next
    case Poll
    with step show ?thesis by (auto split: if_splits)
  next
    case Interrupt
    with step show ?thesis by (auto split: if_splits)
  next
    case Join
    with step show ?thesis by (auto split: if_splits driver.splits)
  qed
qed

section \<open>Permits\<close>

lemma permit_inv_step:
  "permit_inv t \<Longrightarrow> tstep L K f sh t = Some (sh', t') \<Longrightarrow> permit_inv t'"
  by (cases "pc t")
    (auto simp: tstep_def permit_inv_def report_def Let_def
      split: if_splits option.splits fetched.splits reply.splits page.splits list.splits)

lemma reach_permit_inv:
  assumes "reach L B s" and "i < length (tasks s)"
  shows "permit_inv (tasks s ! i)"
proof -
  have "\<forall>i < length (tasks s). permit_inv (tasks s ! i)"
  proof (rule reach_local [where P = "\<lambda>f. permit_inv", OF _ _ assms(1)])
    show "permit_inv new_task"
      by (simp add: permit_inv_def new_task_def)
  qed (rule permit_inv_step)
  with assms(2) show ?thesis by simp
qed

text \<open>
  C8, as the claim states it, fails: the acquire is the first statement of
  \<open>download_file\<close>, so after its first step the only task of a one-file batch is at the
  existence check and holds the one permit.
\<close>

theorem verifying_without_permit_counterexample:
  "map_option (map pc \<circ> tasks)
      (run ex_lib (ex_batch 1 [ex_ok ''a'']) [Run 0] (download_folder (ex_batch 1 [ex_ok ''a''])))
     = Some [Verifying]
   \<and> map_option permits_held
      (run ex_lib (ex_batch 1 [ex_ok ''a'']) [Run 0] (download_folder (ex_batch 1 [ex_ok ''a''])))
     = Some 1"
  by code_simp

text \<open>
  C8, amended. The permit is acquired before the verifying step: in every reachable state
  a task that is verifying holds a permit, and a task that has not yet passed the acquire
  holds none.
\<close>

theorem verifying_holds_permit:
  assumes "reach L B s" and "i < length (tasks s)"
  shows "(pc (tasks s ! i) = Verifying \<longrightarrow> holding (tasks s ! i))
       \<and> (pc (tasks s ! i) = Pending \<longrightarrow> \<not> holding (tasks s ! i))"
  using reach_permit_inv [OF assms]
  by (auto simp: permit_inv_def holding_def)

theorem verifying_holds_permit_witness:
  "reach ex_lib (ex_batch 1 [ex_ok ''a''])
     (the (run ex_lib (ex_batch 1 [ex_ok ''a'']) [Run 0] (download_folder (ex_batch 1 [ex_ok ''a'']))))
   \<and> pc (tasks (the (run ex_lib (ex_batch 1 [ex_ok ''a'']) [Run 0]
                      (download_folder (ex_batch 1 [ex_ok ''a''])))) ! 0) = Verifying
   \<and> holding (tasks (the (run ex_lib (ex_batch 1 [ex_ok ''a'']) [Run 0]
                      (download_folder (ex_batch 1 [ex_ok ''a''])))) ! 0)"
proof -
  let ?B = "ex_batch 1 [ex_ok ''a'']"
  let ?s = "the (run ex_lib ?B [Run 0] (download_folder ?B))"
  have r: "reach ex_lib ?B ?s"
    by (rule run_reach_the; code_simp)
  have i: "0 < length (tasks ?s)"
    by code_simp
  have v: "pc (tasks ?s ! 0) = Verifying"
    by code_simp
  from verifying_holds_permit [OF r i] v r show ?thesis
    by simp
qed

text \<open>
  C1 at a failing input: limit 1 and three files, the first answered 404. Thread 0 runs
  up to its release inside the \<open>try\<close>, thread 1 takes the freed permit, thread 0 runs its
  \<open>finally\<close> clause and releases a second time, and thread 2 takes that permit: thread 0
  has released twice for one acquire, and two tasks hold a permit under a limit of one.
\<close>

theorem double_release_evaluation:
  "map_option (map released \<circ> tasks)
      (run ex_lib (ex_batch 1 [ex_404 ''a'', ex_ok ''b'', ex_ok ''c''])
         (times 6 (Run 0) @ [Run 1, Run 0, Run 2])
         (download_folder (ex_batch 1 [ex_404 ''a'', ex_ok ''b'', ex_ok ''c''])))
     = Some [2, 0, 0]
   \<and> map_option (map acquired \<circ> tasks)
      (run ex_lib (ex_batch 1 [ex_404 ''a'', ex_ok ''b'', ex_ok ''c''])
         (times 6 (Run 0) @ [Run 1, Run 0, Run 2])
         (download_folder (ex_batch 1 [ex_404 ''a'', ex_ok ''b'', ex_ok ''c''])))
     = Some [1, 1, 1]
   \<and> map_option permits_held
      (run ex_lib (ex_batch 1 [ex_404 ''a'', ex_ok ''b'', ex_ok ''c''])
         (times 6 (Run 0) @ [Run 1, Run 0, Run 2])
         (download_folder (ex_batch 1 [ex_404 ''a'', ex_ok ''b'', ex_ok ''c''])))
     = Some 2
   \<and> threads_num (ex_batch 1 [ex_404 ''a'', ex_ok ''b'', ex_ok ''c'']) = 1"
  by code_simp

section \<open>Counters\<close>

lemma count_inv_step:
  "count_inv t \<Longrightarrow> tstep L K f sh t = Some (sh', t') \<Longrightarrow> count_inv t'"
  by (cases "pc t")
    (auto simp: tstep_def count_inv_def report_def Let_def expected_def tally_def update_def
      split: if_splits option.splits fetched.splits reply.splits page.splits list.splits)

lemma bytes_inv_step:
  "bytes_inv f t \<Longrightarrow> tstep L K f sh t = Some (sh', t') \<Longrightarrow> bytes_inv f t'"
  by (cases "pc t")
    (auto simp: tstep_def bytes_inv_def report_def Let_def update_def answer_def body_of_def
      split: if_splits option.splits fetched.splits reply.splits page.splits list.splits)

lemma reported_same: "reported p m p m"
  by (simp add: reported_def)

lemma reported_update: "reported p m (update b c e k p) (update b c e k m)"
  by (auto simp: reported_def)

lemma tstep_report:
  assumes "tstep L K f sh t = Some (sh', t')"
  shows "reported (progress sh) (mine t) (progress sh') (mine t')"
  using assms
  by (cases "pc t")
    (auto simp: tstep_def report_def Let_def release_def reported_same reported_update
      split: if_splits option.splits fetched.splits reply.splits page.splits list.splits)

lemma tstep_delta:
  assumes "tstep L K f sh t = Some (sh', t')"
  shows "completed_files (progress sh') - completed_files (progress sh)
           = completed_files (mine t') - completed_files (mine t)"
    and "failed_files (progress sh') - failed_files (progress sh)
           = failed_files (mine t') - failed_files (mine t)"
    and "skipped_files (progress sh') - skipped_files (progress sh)
           = skipped_files (mine t') - skipped_files (mine t)"
    and "downloaded_bytes (progress sh') - downloaded_bytes (progress sh)
           = downloaded_bytes (mine t') - downloaded_bytes (mine t)"
    and "total_files (progress sh') = total_files (progress sh)"
    and "total_size (progress sh') = total_size (progress sh)"
  using tstep_report [OF assms]
  by (auto simp: update_def reported_def)

lemma sum_list_map_update:
  fixes g :: "'a \<Rightarrow> int"
  shows "i < length xs \<Longrightarrow> (\<Sum>x\<leftarrow>xs[i := y]. g x) = (\<Sum>x\<leftarrow>xs. g x) + g y - g (xs ! i)"
  by (induction xs arbitrary: i) (auto simp: nth_Cons split: nat.splits)

lemma reach_sum_inv: "reach L B s \<Longrightarrow> sum_inv B s"
proof (induction rule: reach.induct)
  case start
  show ?case
    by (simp add: sum_inv_def download_folder_def new_task_def new_ProgressTracker_def
        sum_list_replicate)
next
  case (step s a s')
  show ?case
  proof (cases a)
    case (Run i)
    with step.hyps(2) obtain sh t where i: "i < length (tasks s)"
      and ts: "tstep L (threads_num B) (data B ! i) (shared s) (tasks s ! i) = Some (sh, t)"
      and s': "s' = s\<lparr>shared := sh, tasks := (tasks s)[i := t]\<rparr>"
      by (auto split: if_splits option.splits)
    from tstep_delta [OF ts] step.IH i show ?thesis
      by (simp add: sum_inv_def s' sum_list_map_update)
  next
    case Poll
    with step show ?thesis by (auto simp: sum_inv_def split: if_splits)
  next
    case Interrupt
    with step show ?thesis by (auto simp: sum_inv_def split: if_splits)
  next
    case Join
    with step show ?thesis by (auto simp: sum_inv_def split: if_splits driver.splits)
  qed
qed

lemma reach_count_inv:
  assumes "reach L B s" and "i < length (tasks s)"
  shows "count_inv (tasks s ! i)"
proof -
  have "\<forall>i < length (tasks s). count_inv (tasks s ! i)"
  proof (rule reach_local [where P = "\<lambda>f. count_inv", OF _ _ assms(1)])
    show "count_inv new_task"
      by (simp add: count_inv_def new_task_def tally_def new_ProgressTracker_def)
  qed (rule count_inv_step)
  with assms(2) show ?thesis by simp
qed

lemma reach_bytes_inv:
  assumes "reach L B s" and "i < length (tasks s)"
  shows "bytes_inv (data B ! i) (tasks s ! i)"
proof -
  have "\<forall>i < length (tasks s). bytes_inv (data B ! i) (tasks s ! i)"
  proof (rule reach_local [where P = bytes_inv, OF _ _ assms(1)])
    show "bytes_inv f new_task" for f
      by (simp add: bytes_inv_def new_task_def new_ProgressTracker_def)
  qed (rule bytes_inv_step)
  with assms(2) show ?thesis by simp
qed

lemma tally_sum:
  "(\<Sum>t\<leftarrow>ts. tally (mine t))
     = (\<Sum>t\<leftarrow>ts. completed_files (mine t)) + (\<Sum>t\<leftarrow>ts. failed_files (mine t))
       + (\<Sum>t\<leftarrow>ts. skipped_files (mine t))"
  by (induction ts) (simp_all add: tally_def)

lemma counted_or_cancelled:
  "\<forall>t\<in>set ts. tally (mine t) = (if outcome t = Some Cancelled then 0 else 1) \<Longrightarrow>
   (\<Sum>t\<leftarrow>ts. tally (mine t)) + int (length (filter (\<lambda>t. outcome t = Some Cancelled) ts))
     = int (length ts)"
  by (induction ts) simp_all

lemma sum_list_pointwise_le:
  fixes g :: "'a \<Rightarrow> int" and h :: "'b \<Rightarrow> int"
  shows "length xs = length ys \<Longrightarrow> \<forall>i < length xs. g (xs ! i) \<le> h (ys ! i) \<Longrightarrow>
         (\<Sum>x\<leftarrow>xs. g x) \<le> (\<Sum>y\<leftarrow>ys. h y)"
proof (induction xs ys rule: list_induct2)
  case Nil
  show ?case by simp
next
  case (Cons x xs y ys)
  from Cons.prems have "g x \<le> h y" by force
  moreover from Cons.prems have "\<forall>i < length xs. g (xs ! i) \<le> h (ys ! i)" by force
  ultimately show ?case using Cons.IH by simp
qed

lemma dead_task_tally:
  assumes "count_inv t" and "pc t = Done" and "\<not> caught t"
  shows "tally (mine t) = (if outcome t = Some Cancelled then 0 else 1)"
  using assms
  by (auto simp: count_inv_def expected_def split: option.splits outcome.splits)

lemma task_bytes_le:
  assumes "bytes_inv f t" and "int (length (body_of f)) \<le> file_size f"
  shows "downloaded_bytes (mine t) \<le> file_size f"
proof -
  have "0 \<le> file_size f" using assms(2) by linarith
  with assms show ?thesis
    by (cases "pc t") (auto simp: bytes_inv_def Let_def)
qed

text \<open>
  C2, amended. For a batch whose local names are pairwise different: in every reachable
  state in which all tasks have ended, the completed, failed and skipped counters
  together with the number of tasks that ended cancelled add up to the number of files,
  provided no release inside the \<open>try\<close> block was refused (that case, in which the
  handler counts a file as failed once more, is left open). In every reachable state the
  downloaded bytes are at most the total declared size when no file's delivered body is
  longer than its declared size.
\<close>

theorem counters_consistent:
  assumes "reach L B s" and "distinct (map (local_name L) (data B))"
  shows "(all_dead s \<and> (\<forall>t\<in>set (tasks s). \<not> caught t) \<longrightarrow>
            tally (progress (shared s)) + cancelled s = total_files (progress (shared s)))
       \<and> ((\<forall>f\<in>set (data B). int (length (body_of f)) \<le> file_size f) \<longrightarrow>
            downloaded_bytes (progress (shared s)) \<le> total_size (progress (shared s)))"
proof (intro conjI impI)
  note si = reach_sum_inv [OF assms(1)]
  note len = reach_length [OF assms(1)]
  {
    assume a: "all_dead s \<and> (\<forall>t\<in>set (tasks s). \<not> caught t)"
    have "\<forall>t\<in>set (tasks s). tally (mine t) = (if outcome t = Some Cancelled then 0 else 1)"
    proof
      fix t assume t: "t \<in> set (tasks s)"
      then obtain i where i: "i < length (tasks s)" and ti: "tasks s ! i = t"
        by (auto simp: in_set_conv_nth)
      from reach_count_inv [OF assms(1) i] ti have "count_inv t" by simp
      moreover from a t have "pc t = Done" "\<not> caught t"
        by (auto simp: all_dead_def list_all_iff)
      ultimately show "tally (mine t) = (if outcome t = Some Cancelled then 0 else 1)"
        by (rule dead_task_tally)
    qed
    from counted_or_cancelled [OF this] len
    have "(\<Sum>t\<leftarrow>tasks s. tally (mine t)) + cancelled s = int (length (data B))"
      by (simp add: cancelled_def)
    moreover from si have "tally (progress (shared s)) = (\<Sum>t\<leftarrow>tasks s. tally (mine t))"
      by (simp only: tally_sum) (simp add: sum_inv_def tally_def)
    moreover from si have "total_files (progress (shared s)) = int (length (data B))"
      by (simp add: sum_inv_def)
    ultimately
    show "tally (progress (shared s)) + cancelled s = total_files (progress (shared s))"
      by simp
  }
  {
    assume fit: "\<forall>f\<in>set (data B). int (length (body_of f)) \<le> file_size f"
    have "\<forall>i < length (tasks s). downloaded_bytes (mine (tasks s ! i)) \<le> file_size (data B ! i)"
    proof (intro allI impI)
      fix i assume i: "i < length (tasks s)"
      with len fit have "int (length (body_of (data B ! i))) \<le> file_size (data B ! i)"
        by simp
      with reach_bytes_inv [OF assms(1) i] show "downloaded_bytes (mine (tasks s ! i)) \<le> file_size (data B ! i)"
        by (rule task_bytes_le)
    qed
    with len have "(\<Sum>t\<leftarrow>tasks s. downloaded_bytes (mine t)) \<le> (\<Sum>f\<leftarrow>data B. file_size f)"
      by (intro sum_list_pointwise_le) simp_all
    with si show "downloaded_bytes (progress (shared s)) \<le> total_size (progress (shared s))"
      by (simp add: sum_inv_def)
  }
qed

text \<open>
  C2, as the claim states it, fails: in the run of \<open>ex_two\<close> above both tasks have ended,
  one completed and one cancelled, and the three counters add up to 1 for 2 files. No
  release is refused in this run.
\<close>

theorem cancelled_not_counted_counterexample:
  "map_option all_dead (run ex_lib ex_two ex_late_interrupt (download_folder ex_two)) = Some True
   \<and> map_option (tally \<circ> progress \<circ> shared)
        (run ex_lib ex_two ex_late_interrupt (download_folder ex_two)) = Some 1
   \<and> map_option (total_files \<circ> progress \<circ> shared)
        (run ex_lib ex_two ex_late_interrupt (download_folder ex_two)) = Some 2"
  by code_simp

theorem counters_consistent_witness:
  "reach ex_lib ex_two (the (run ex_lib ex_two ex_late_interrupt (download_folder ex_two)))
   \<and> distinct (map (local_name ex_lib) (data ex_two))
   \<and> all_dead (the (run ex_lib ex_two ex_late_interrupt (download_folder ex_two)))
   \<and> map caught (tasks (the (run ex_lib ex_two ex_late_interrupt (download_folder ex_two))))
       = [False, False]
   \<and> list_all (\<lambda>f. int (length (body_of f)) \<le> file_size f) (data ex_two)
   \<and> tally (progress (shared (the (run ex_lib ex_two ex_late_interrupt (download_folder ex_two)))))
       + cancelled (the (run ex_lib ex_two ex_late_interrupt (download_folder ex_two)))
       = total_files (progress (shared
           (the (run ex_lib ex_two ex_late_interrupt (download_folder ex_two)))))
   \<and> downloaded_bytes (progress (shared
         (the (run ex_lib ex_two ex_late_interrupt (download_folder ex_two)))))
       \<le> total_size (progress (shared
           (the (run ex_lib ex_two ex_late_interrupt (download_folder ex_two)))))"
proof -
  let ?s = "the (run ex_lib ex_two ex_late_interrupt (download_folder ex_two))"
  have r: "reach ex_lib ex_two ?s"
    by (rule run_reach_the; code_simp)
  have n: "distinct (map (local_name ex_lib) (data ex_two))"
    by code_simp
  have d: "all_dead ?s"
    by code_simp
  have c: "map caught (tasks ?s) = [False, False]"
    by code_simp
  have "\<forall>b\<in>set (map caught (tasks ?s)). \<not> b"
    unfolding c by simp
  then have c': "\<forall>t\<in>set (tasks ?s). \<not> caught t"
    by simp
  have f: "list_all (\<lambda>f. int (length (body_of f)) \<le> file_size f) (data ex_two)"
    by code_simp
  then have f': "\<forall>f\<in>set (data ex_two). int (length (body_of f)) \<le> file_size f"
    by (simp add: list_all_iff)
  from counters_consistent [OF r n] d c c' f f' r n show ?thesis
    by blast
qed

section \<open>The bytes counter never decreases\<close>

lemma tstep_bytes_mono:
  assumes "tstep L K f sh t = Some (sh', t')" and "0 \<le> file_size f"
  shows "downloaded_bytes (progress sh) \<le> downloaded_bytes (progress sh')"
  using assms
  by (cases "pc t")
    (auto simp: tstep_def report_def Let_def release_def update_def
      split: if_splits option.splits fetched.splits reply.splits page.splits list.splits)

lemma step_bytes_mono:
  assumes "reach L B s" and "\<forall>f\<in>set (data B). 0 \<le> file_size f" and "step L B a s = Some s'"
  shows "bytes_counted s \<le> bytes_counted s'"
proof (cases a)
  case (Run i)
  with assms(3) obtain sh t where i: "i < length (tasks s)"
    and ts: "tstep L (threads_num B) (data B ! i) (shared s) (tasks s ! i) = Some (sh, t)"
    and s': "s' = s\<lparr>shared := sh, tasks := (tasks s)[i := t]\<rparr>"
    by (auto split: if_splits option.splits)
  from i reach_length [OF assms(1)] assms(2) have "0 \<le> file_size (data B ! i)"
    by simp
  from tstep_bytes_mono [OF ts this] show ?thesis
    by (simp add: s' bytes_counted_def)
next
  case Poll
  with assms(3) show ?thesis by (auto simp: bytes_counted_def split: if_splits)
next
  case Interrupt
  with assms(3) show ?thesis by (auto simp: bytes_counted_def split: if_splits)
next
  case Join
  with assms(3) show ?thesis by (auto simp: bytes_counted_def split: if_splits driver.splits)
qed

lemma run_bytes_mono:
  assumes "\<forall>f\<in>set (data B). 0 \<le> file_size f"
  shows "reach L B s \<Longrightarrow> run L B acts s = Some s' \<Longrightarrow> bytes_counted s \<le> bytes_counted s'"
proof (induction acts arbitrary: s)
  case Nil
  then show ?case by simp
next
  case (Cons a acts)
  from Cons.prems(2) obtain u where u: "step L B a s = Some u" and r: "run L B acts u = Some s'"
    by (auto split: option.splits)
  from step_bytes_mono [OF Cons.prems(1) assms u] have "bytes_counted s \<le> bytes_counted u" .
  moreover from Cons.IH [OF reach.step [OF Cons.prems(1) u] r]
  have "bytes_counted u \<le> bytes_counted s'" .
  ultimately show ?case by simp
qed

text \<open>
  C10. With declared sizes that are not negative, no step of any thread or of the driver
  lowers the downloaded-bytes counter, so it never decreases along a run. The bytes of
  chunks written to a file that is deleted afterwards stay counted: in the run with the
  broken stream the task ends failed, its file is gone, and the counter that the summary
  uses is 2; in the interrupted run the task ends cancelled, its file is gone, and the
  counter is 2.
\<close>

theorem downloaded_bytes_monotone:
  "(reach L B s \<and> (\<forall>f\<in>set (data B). 0 \<le> file_size f) \<and> run L B acts s = Some s'
      \<longrightarrow> bytes_counted s \<le> bytes_counted s')
   \<and> map_option bytes_counted
        (run ex_lib ex_one_broken ex_stream_fails (download_folder ex_one_broken)) = Some 2
   \<and> map_option (map outcome \<circ> tasks)
        (run ex_lib ex_one_broken ex_stream_fails (download_folder ex_one_broken))
        = Some [Some Failed]
   \<and> map_option (present ex_lib ex_one_broken)
        (run ex_lib ex_one_broken ex_stream_fails (download_folder ex_one_broken))
        = Some [False]
   \<and> map_option driver
        (run ex_lib ex_one_broken ex_stream_fails (download_folder ex_one_broken))
        = Some Finished
   \<and> map_option bytes_counted
        (run ex_lib ex_one ex_cancel_midstream (download_folder ex_one)) = Some 2
   \<and> map_option (map outcome \<circ> tasks)
        (run ex_lib ex_one ex_cancel_midstream (download_folder ex_one))
        = Some [Some Cancelled]
   \<and> map_option (present ex_lib ex_one)
        (run ex_lib ex_one ex_cancel_midstream (download_folder ex_one))
        = Some [False]"
proof (intro conjI impI)
  assume "reach L B s \<and> (\<forall>f\<in>set (data B). 0 \<le> file_size f) \<and> run L B acts s = Some s'"
  then show "bytes_counted s \<le> bytes_counted s'"
    using run_bytes_mono by blast
qed code_simp+

theorem downloaded_bytes_monotone_witness:
  "reach ex_lib ex_one (download_folder ex_one)
   \<and> list_all (\<lambda>f. 0 \<le> file_size f) (data ex_one)
   \<and> run ex_lib ex_one ex_cancel_midstream (download_folder ex_one) \<noteq> None
   \<and> bytes_counted (download_folder ex_one)
        \<le> bytes_counted (the (run ex_lib ex_one ex_cancel_midstream (download_folder ex_one)))
   \<and> bytes_counted (the (run ex_lib ex_one (times 8 (Run 0)) (download_folder ex_one))) = 2
   \<and> bytes_counted (the (run ex_lib ex_one ex_cancel_midstream (download_folder ex_one))) = 2"
proof -
  let ?s = "the (run ex_lib ex_one ex_cancel_midstream (download_folder ex_one))"
  have r: "reach ex_lib ex_one (download_folder ex_one)"
    by (rule reach.start) code_simp
  have f': "list_all (\<lambda>f. 0 \<le> file_size f) (data ex_one)"
    by code_simp
  then have f: "\<forall>f\<in>set (data ex_one). 0 \<le> file_size f"
    by (simp add: list_all_iff)
  have n: "run ex_lib ex_one ex_cancel_midstream (download_folder ex_one) \<noteq> None"
    by code_simp
  then have e: "run ex_lib ex_one ex_cancel_midstream (download_folder ex_one) = Some ?s"
    by simp
  have b: "bytes_counted (the (run ex_lib ex_one (times 8 (Run 0)) (download_folder ex_one))) = 2"
    by code_simp
  have b': "bytes_counted ?s = 2"
    by code_simp
  from downloaded_bytes_monotone [of ex_lib ex_one "download_folder ex_one" ex_cancel_midstream ?s]
    r f f' e n b b'
  show ?thesis by blast
qed

section \<open>Local names\<close>

text \<open>
  C6 at a failing input: the root folder's name is normalized on the first call, but the
  recursive call receives the subfolder's name as the listing shows it, so the directory
  made for the subfolder \<open>a:b\<close> is \<open>a:b\<close>, not its normalized form \<open>a-b\<close>.
\<close>

theorem subfolder_name_not_normalized:
  "get_folders ex_lib 200 ex_tree (py ''.'') True
     = Inr [Makedirs (py ''./my-root''), Chdir (py ''./my-root''), Batch (py ''k0''),
            Makedirs (py ''a:b''), Chdir (py ''a:b''), Batch (py ''k1''), Chdir (py ''..'')]
   \<and> normalize_file_or_folder_name ex_lib (py ''a:b'') = py ''a-b''"
  by code_simp

section \<open>Failures of the redirect resolution\<close>

text \<open>
  C7 at a failing input: one file whose interstitial has no download button. The task
  reports the failure and releases inside the \<open>try\<close> (after 5 steps it stands at that
  release), which brings the semaphore back to its initial value; the \<open>finally\<close> clause
  releases again, the bounded semaphore raises, and the exception leaves
  \<open>download_file\<close>.
\<close>

theorem extraction_failure_raises:
  "map_option (map raised \<circ> tasks)
      (run ex_lib ex_default (times 7 (Run 0)) (download_folder ex_default)) = Some [True]
   \<and> map_option (map pc \<circ> tasks)
      (run ex_lib ex_default (times 7 (Run 0)) (download_folder ex_default)) = Some [Done]
   \<and> map_option (map outcome \<circ> tasks)
      (run ex_lib ex_default (times 7 (Run 0)) (download_folder ex_default)) = Some [Some Failed]
   \<and> map_option (map pc \<circ> tasks)
      (run ex_lib ex_default (times 5 (Run 0)) (download_folder ex_default)) = Some [TryRelease]"
  by code_simp

section \<open>Idempotence\<close>

lemma skip_inv_step:
  assumes "matches L B f" and "fs sh = disk B" and "requests sh = 0" and "skip_inv f t"
    and "tstep L K f sh t = Some (sh', t')"
  shows "fs sh' = disk B \<and> requests sh' = 0 \<and> skip_inv f t'"
  using assms
  by (cases "pc t")
    (auto simp: tstep_def skip_inv_def matches_def local_name_def report_def release_def
      skip_report_def Let_def split: if_splits option.splits)

lemma reach_idem_inv:
  assumes "\<forall>f\<in>set (data B). matches L B f"
  shows "reach L B s \<Longrightarrow> idem_inv B s"
proof (induction rule: reach.induct)
  case start
  show ?case
    by (simp add: idem_inv_def download_folder_def skip_inv_def new_task_def)
next
  case (step s a s')
  note len = reach_length [OF step.hyps(1)]
  show ?case
  proof (cases a)
    case (Run i)
    with step.hyps(2) obtain sh t where i: "i < length (tasks s)"
      and ts: "tstep L (threads_num B) (data B ! i) (shared s) (tasks s ! i) = Some (sh, t)"
      and s': "s' = s\<lparr>shared := sh, tasks := (tasks s)[i := t]\<rparr>"
      by (auto split: if_splits option.splits)
    from i len assms have m: "matches L B (data B ! i)" by simp
    from step.IH i have "fs (shared s) = disk B" "requests (shared s) = 0"
      "skip_inv (data B ! i) (tasks s ! i)"
      by (simp_all add: idem_inv_def)
    from skip_inv_step [OF m this ts] step.IH i show ?thesis
      by (auto simp: idem_inv_def s' nth_list_update)
  next
    case Poll
    with step show ?thesis by (auto simp: idem_inv_def split: if_splits)
  next
    case Interrupt
    with step show ?thesis by (auto simp: idem_inv_def split: if_splits)
  next
    case Join
    with step show ?thesis by (auto simp: idem_inv_def split: if_splits driver.splits)
  qed
qed

lemma sum_list_const:
  fixes g :: "'a \<Rightarrow> int"
  shows "\<forall>t\<in>set ts. g t = c \<Longrightarrow> (\<Sum>t\<leftarrow>ts. g t) = int (length ts) * c"
  by (induction ts) (simp_all add: algebra_simps)

lemma all_present_safety:
  assumes "reach L B s" and "\<forall>f\<in>set (data B). matches L B f"
  shows "requests (shared s) = 0 \<and> fs (shared s) = disk B
       \<and> (all_dead s \<longrightarrow>
            skipped_files (progress (shared s)) = total_files (progress (shared s))
          \<and> completed_files (progress (shared s)) = 0
          \<and> failed_files (progress (shared s)) = 0
          \<and> downloaded_bytes (progress (shared s)) = total_size (progress (shared s))
          \<and> list_all (\<lambda>t. outcome t = Some Skipped) (tasks s))"
proof (intro conjI impI)
  note inv = reach_idem_inv [OF assms(2) assms(1)]
  note si = reach_sum_inv [OF assms(1)]
  note len = reach_length [OF assms(1)]
  from inv show "requests (shared s) = 0" and "fs (shared s) = disk B"
    by (simp_all add: idem_inv_def)
  assume dead: "all_dead s"
  have each: "outcome (tasks s ! i) = Some Skipped
              \<and> mine (tasks s ! i) = skip_report (data B ! i)" if "i < length (tasks s)" for i
  proof -
    from dead that have "pc (tasks s ! i) = Done"
      by (simp add: all_dead_def list_all_length)
    with inv that show ?thesis
      by (auto simp: idem_inv_def skip_inv_def)
  qed
  have mine: "\<forall>t\<in>set (tasks s). skipped_files (mine t) = 1 \<and> completed_files (mine t) = 0
                \<and> failed_files (mine t) = 0 \<and> outcome t = Some Skipped"
  proof
    fix t assume "t \<in> set (tasks s)"
    then obtain i where "i < length (tasks s)" and "tasks s ! i = t"
      by (auto simp: in_set_conv_nth)
    with each [of i] show "skipped_files (mine t) = 1 \<and> completed_files (mine t) = 0
        \<and> failed_files (mine t) = 0 \<and> outcome t = Some Skipped"
      by (auto simp: skip_report_def update_def new_ProgressTracker_def)
  qed
  from mine have "(\<Sum>t\<leftarrow>tasks s. skipped_files (mine t)) = int (length (tasks s)) * 1"
    by (intro sum_list_const) simp
  with si len show "skipped_files (progress (shared s)) = total_files (progress (shared s))"
    by (simp add: sum_inv_def)
  from mine have "(\<Sum>t\<leftarrow>tasks s. completed_files (mine t)) = int (length (tasks s)) * 0"
    by (intro sum_list_const) simp
  with si show "completed_files (progress (shared s)) = 0"
    by (simp add: sum_inv_def)
  from mine have "(\<Sum>t\<leftarrow>tasks s. failed_files (mine t)) = int (length (tasks s)) * 0"
    by (intro sum_list_const) simp
  with si show "failed_files (progress (shared s)) = 0"
    by (simp add: sum_inv_def)
  from mine show "list_all (\<lambda>t. outcome t = Some Skipped) (tasks s)"
    by (simp add: list_all_iff)
  have b: "\<forall>i < length (tasks s). downloaded_bytes (mine (tasks s ! i)) = file_size (data B ! i)"
    using each by (simp add: skip_report_def update_def new_ProgressTracker_def)
  from b len have "(\<Sum>t\<leftarrow>tasks s. downloaded_bytes (mine t)) \<le> (\<Sum>f\<leftarrow>data B. file_size f)"
    by (intro sum_list_pointwise_le) simp_all
  moreover
  from b len have "(\<Sum>f\<leftarrow>data B. file_size f) \<le> (\<Sum>t\<leftarrow>tasks s. downloaded_bytes (mine t))"
    by (intro sum_list_pointwise_le) simp_all
  ultimately
  show "downloaded_bytes (progress (shared s)) = total_size (progress (shared s))"
    using si by (simp add: sum_inv_def)
qed

lemma sum_list_split_nth:
  fixes h :: "'a \<Rightarrow> nat"
  shows "i < length xs \<Longrightarrow>
         \<exists>m. (\<Sum>x\<leftarrow>xs. h x) = h (xs ! i) + m \<and> (\<forall>y. (\<Sum>x\<leftarrow>xs[i := y]. h x) = h y + m)"
proof (induction xs arbitrary: i)
  case Nil
  then show ?case by simp
next
  case (Cons x xs)
  show ?case
  proof (cases i)
    case 0
    then show ?thesis by simp
  next
    case (Suc j)
    with Cons.prems have "j < length xs" by simp
    from Cons.IH [OF this] obtain m where
      "(\<Sum>x\<leftarrow>xs. h x) = h (xs ! j) + m" and "\<forall>y. (\<Sum>x\<leftarrow>xs[j := y]. h x) = h y + m"
      by blast
    then have "(\<Sum>x\<leftarrow>x # xs. h x) = h ((x # xs) ! i) + (h x + m)
             \<and> (\<forall>y. (\<Sum>x\<leftarrow>(x # xs)[i := y]. h x) = h y + (h x + m))"
      by (simp add: Suc)
    then show ?thesis by blast
  qed
qed

lemma step_RunI:
  assumes "i < length (tasks s)"
    and "tstep L (threads_num B) (data B ! i) (shared s) (tasks s ! i) = Some (sh, t)"
  shows "step L B (Run i) s = Some (s\<lparr>shared := sh, tasks := (tasks s)[i := t]\<rparr>)"
  using assms by simp

lemma skip_task_step:
  assumes "skip_inv f t" and "matches L B f" and "fs sh = disk B"
    and "pc t \<noteq> Done" and "pc t = Pending \<longrightarrow> 0 < sem sh"
  shows "\<exists>sh' t'. tstep L K f sh t = Some (sh', t') \<and> rank (pc t') < rank (pc t)"
  using assms
  by (cases "pc t")
    (auto simp: tstep_def skip_inv_def matches_def local_name_def report_def rank_def Let_def
      split: option.splits)

lemma skip_task_permits:
  assumes "skip_inv f t" and "matches L B f" and "fs sh = disk B"
    and "tstep L K f sh t = Some (sh', t')" and "sem sh + busy t + m = K"
  shows "sem sh' + busy t' + m = K"
  using assms
  by (cases "pc t")
    (auto simp: tstep_def skip_inv_def matches_def local_name_def report_def release_def
      busy_def Let_def split: option.splits if_splits)

lemma reach_permit_sum:
  assumes "\<forall>f\<in>set (data B). matches L B f"
  shows "reach L B s \<Longrightarrow> sem (shared s) + (\<Sum>t\<leftarrow>tasks s. busy t) = threads_num B"
proof (induction rule: reach.induct)
  case start
  show ?case
    by (simp add: download_folder_def new_task_def busy_def sum_list_replicate)
next
  case (step s a s')
  note len = reach_length [OF step.hyps(1)]
  note inv = reach_idem_inv [OF assms step.hyps(1)]
  show ?case
  proof (cases a)
    case (Run i)
    with step.hyps(2) obtain sh t where i: "i < length (tasks s)"
      and ts: "tstep L (threads_num B) (data B ! i) (shared s) (tasks s ! i) = Some (sh, t)"
      and s': "s' = s\<lparr>shared := sh, tasks := (tasks s)[i := t]\<rparr>"
      by (auto split: if_splits option.splits)
    from i len assms have m: "matches L B (data B ! i)" by simp
    from inv i have f: "fs (shared s) = disk B" and k: "skip_inv (data B ! i) (tasks s ! i)"
      by (simp_all add: idem_inv_def)
    from sum_list_split_nth [OF i, of busy] obtain n where
      n: "(\<Sum>t\<leftarrow>tasks s. busy t) = busy (tasks s ! i) + n"
      and n': "\<forall>y. (\<Sum>t\<leftarrow>(tasks s)[i := y]. busy t) = busy y + n"
      by blast
    from step.IH n have "sem (shared s) + busy (tasks s ! i) + n = threads_num B"
      by simp
    from skip_task_permits [OF k m f ts this] n' show ?thesis
      by (simp add: s')
  next
    case Poll
    with step show ?thesis by (auto split: if_splits)
  next
    case Interrupt
    with step show ?thesis by (auto split: if_splits)
  next
    case Join
    with step show ?thesis by (auto split: if_splits driver.splits)
  qed
qed

lemma all_skip_progress:
  assumes am: "\<forall>f\<in>set (data B). matches L B f" and k: "1 \<le> threads_num B"
    and r: "reach L B s" and nd: "\<not> all_dead s"
  shows "\<exists>i s'. step L B (Run i) s = Some s' \<and> remaining s' < remaining s"
proof -
  note len = reach_length [OF r]
  note inv = reach_idem_inv [OF am r]
  note ps = reach_permit_sum [OF am r]
  from inv have f: "fs (shared s) = disk B" by (simp add: idem_inv_def)
  have move: "\<exists>s'. step L B (Run i) s = Some s' \<and> remaining s' < remaining s"
    if i: "i < length (tasks s)" and alive: "pc (tasks s ! i) \<noteq> Done"
      and free: "pc (tasks s ! i) = Pending \<longrightarrow> 0 < sem (shared s)" for i
  proof -
    from i len am have m: "matches L B (data B ! i)" by simp
    from inv i have sk: "skip_inv (data B ! i) (tasks s ! i)" by (simp add: idem_inv_def)
    from skip_task_step [OF sk m f alive free, of "threads_num B"] obtain sh t where
      ts: "tstep L (threads_num B) (data B ! i) (shared s) (tasks s ! i) = Some (sh, t)"
      and less: "rank (pc t) < rank (pc (tasks s ! i))"
      by blast
    from sum_list_split_nth [OF i, of "\<lambda>t. rank (pc t)"] obtain n where
      "(\<Sum>t\<leftarrow>tasks s. rank (pc t)) = rank (pc (tasks s ! i)) + n"
      and "\<forall>y. (\<Sum>t\<leftarrow>(tasks s)[i := y]. rank (pc t)) = rank (pc y) + n"
      by blast
    with less have "remaining (s\<lparr>shared := sh, tasks := (tasks s)[i := t]\<rparr>) < remaining s"
      by (simp add: remaining_def)
    with step_RunI [OF i ts] show ?thesis by blast
  qed
  from nd obtain j where j: "j < length (tasks s)" and aj: "pc (tasks s ! j) \<noteq> Done"
    by (auto simp: all_dead_def list_all_length)
  show ?thesis
  proof (cases "\<exists>i < length (tasks s). busy (tasks s ! i) = 1")
    case True
    then obtain i where i: "i < length (tasks s)" and b: "busy (tasks s ! i) = 1"
      by blast
    from b have "pc (tasks s ! i) \<noteq> Done" "pc (tasks s ! i) \<noteq> Pending"
      by (auto simp: busy_def split: if_splits)
    with move [OF i] show ?thesis by blast
  next
    case False
    have "\<forall>t\<in>set (tasks s). busy t = 0"
    proof
      fix t assume "t \<in> set (tasks s)"
      then obtain i where "i < length (tasks s)" and "tasks s ! i = t"
        by (auto simp: in_set_conv_nth)
      with False have "busy t \<noteq> 1" by blast
      then show "busy t = 0" by (simp add: busy_def split: if_splits)
    qed
    then have "(\<Sum>t\<leftarrow>tasks s. busy t) = 0"
      by simp
    with ps k have "0 < sem (shared s)" by simp
    with move [OF j aj] show ?thesis by blast
  qed
qed

lemma all_skip_completes:
  assumes am: "\<forall>f\<in>set (data B). matches L B f" and k: "1 \<le> threads_num B"
  shows "reach L B s \<Longrightarrow> \<exists>acts s'. run L B acts s = Some s' \<and> all_dead s'"
proof (induction "remaining s" arbitrary: s rule: less_induct)
  case less
  show ?case
  proof (cases "all_dead s")
    case True
    then have "run L B [] s = Some s \<and> all_dead s" by simp
    then show ?thesis by blast
  next
    case False
    from all_skip_progress [OF am k less.prems False] obtain i u where
      u: "step L B (Run i) s = Some u" and d: "remaining u < remaining s"
      by blast
    from less.hyps [OF d reach.step [OF less.prems u]] obtain acts s' where
      "run L B acts u = Some s'" and "all_dead s'"
      by blast
    with u have "run L B (Run i # acts) s = Some s' \<and> all_dead s'" by simp
    then show ?thesis by blast
  qed
qed

text \<open>
  C5, amended. When every listed file is present with the expected hash, no request is
  issued and the directory is left as it was in every reachable state; in every state in
  which all tasks have ended every file is reported skipped, none completed or failed,
  and the downloaded-bytes counter equals the total declared size: each skip adds the
  declared size of its file to the counter although nothing is transferred. With a limit
  of at least one, every reachable state can be run on to such an end.
\<close>

theorem all_present_all_skipped:
  assumes "reach L B s" and "\<forall>f\<in>set (data B). matches L B f"
  shows "requests (shared s) = 0 \<and> fs (shared s) = disk B
       \<and> (all_dead s \<longrightarrow>
            skipped_files (progress (shared s)) = total_files (progress (shared s))
          \<and> completed_files (progress (shared s)) = 0
          \<and> failed_files (progress (shared s)) = 0
          \<and> downloaded_bytes (progress (shared s)) = total_size (progress (shared s))
          \<and> list_all (\<lambda>t. outcome t = Some Skipped) (tasks s))
       \<and> (1 \<le> threads_num B \<longrightarrow>
            (\<exists>acts s'. run L B acts s = Some s' \<and> all_dead s'
               \<and> requests (shared s') = 0 \<and> fs (shared s') = disk B
               \<and> skipped_files (progress (shared s')) = total_files (progress (shared s'))
               \<and> completed_files (progress (shared s')) = 0
               \<and> failed_files (progress (shared s')) = 0
               \<and> downloaded_bytes (progress (shared s')) = total_size (progress (shared s'))
               \<and> list_all (\<lambda>t. outcome t = Some Skipped) (tasks s')))"
proof -
  have ex: "\<exists>acts s'. run L B acts s = Some s' \<and> all_dead s'
               \<and> requests (shared s') = 0 \<and> fs (shared s') = disk B
               \<and> skipped_files (progress (shared s')) = total_files (progress (shared s'))
               \<and> completed_files (progress (shared s')) = 0
               \<and> failed_files (progress (shared s')) = 0
               \<and> downloaded_bytes (progress (shared s')) = total_size (progress (shared s'))
               \<and> list_all (\<lambda>t. outcome t = Some Skipped) (tasks s')"
    if k: "1 \<le> threads_num B"
  proof -
    from all_skip_completes [OF assms(2) k assms(1)] obtain acts s' where
      run: "run L B acts s = Some s'" and dead: "all_dead s'"
      by blast
    from run_reach [OF assms(1) run] have "reach L B s'" .
    from all_present_safety [OF this assms(2)] run dead show ?thesis
      by blast
  qed
  with all_present_safety [OF assms] show ?thesis
    by blast
qed

text \<open>
  C5, as the claim states it, fails in its last part: the one file of \<open>ex_present\<close> is
  skipped without any request, and 3 bytes are counted for it.
\<close>

theorem skipped_bytes_counted_counterexample:
  "list_all (matches ex_lib ex_present) (data ex_present)
   \<and> map_option (requests \<circ> shared)
        (run ex_lib ex_present ex_skip (download_folder ex_present)) = Some 0
   \<and> map_option (map outcome \<circ> tasks)
        (run ex_lib ex_present ex_skip (download_folder ex_present)) = Some [Some Skipped]
   \<and> map_option bytes_counted
        (run ex_lib ex_present ex_skip (download_folder ex_present)) = Some 3"
  by code_simp

theorem all_present_all_skipped_witness:
  "reach ex_lib ex_present (the (run ex_lib ex_present ex_skip (download_folder ex_present)))
   \<and> list_all (matches ex_lib ex_present) (data ex_present)
   \<and> 1 \<le> threads_num ex_present
   \<and> all_dead (the (run ex_lib ex_present ex_skip (download_folder ex_present)))
   \<and> requests (shared (the (run ex_lib ex_present ex_skip (download_folder ex_present)))) = 0
   \<and> skipped_files (progress (shared
        (the (run ex_lib ex_present ex_skip (download_folder ex_present))))) = 1
   \<and> downloaded_bytes (progress (shared
        (the (run ex_lib ex_present ex_skip (download_folder ex_present))))) = 3"
proof -
  let ?s = "the (run ex_lib ex_present ex_skip (download_folder ex_present))"
  have r: "reach ex_lib ex_present ?s"
    by (rule run_reach_the; code_simp)
  have m: "list_all (matches ex_lib ex_present) (data ex_present)"
    by code_simp
  then have m': "\<forall>f\<in>set (data ex_present). matches ex_lib ex_present f"
    by (simp add: list_all_iff)
  have d: "all_dead ?s"
    by code_simp
  have t: "total_files (progress (shared ?s)) = 1" "total_size (progress (shared ?s)) = 3"
    by code_simp+
  have k: "1 \<le> threads_num ex_present"
    by code_simp
  from all_present_all_skipped [OF r m'] d
  have "requests (shared ?s) = 0"
    and "skipped_files (progress (shared ?s)) = total_files (progress (shared ?s))"
    and "downloaded_bytes (progress (shared ?s)) = total_size (progress (shared ?s))"
    by blast+
  with d t r m k show ?thesis
    by simp
qed

section \<open>Target files after a batch\<close>

lemma tstep_fs_frame:
  assumes "tstep L K f sh t = Some (sh', t')" and "x \<noteq> local_name L f"
  shows "fs sh' x = fs sh x"
  using assms
  by (cases "pc t")
    (auto simp: tstep_def report_def release_def local_name_def Let_def
      split: if_splits option.splits fetched.splits reply.splits page.splits list.splits)

lemma tstep_alive: "tstep L K f sh t = Some (sh', t') \<Longrightarrow> pc t \<noteq> Done"
  by (auto simp: tstep_def)

lemma reach_framed:
  assumes dist: "distinct (map (local_name L) (data B))"
    and init: "\<And>f. P f (shared (download_folder B)) new_task"
    and own: "\<And>f sh t sh' t'.
      P f sh t \<Longrightarrow> tstep L (threads_num B) f sh t = Some (sh', t') \<Longrightarrow> P f sh' t'"
    and frame: "\<And>f sh sh' t.
      P f sh t \<Longrightarrow> fs sh' (local_name L f) = fs sh (local_name L f) \<Longrightarrow> P f sh' t"
    and r: "reach L B s"
  shows "\<forall>i < length (tasks s). P (data B ! i) (shared s) (tasks s ! i)"
  using r
proof (induction rule: reach.induct)
  case start
  show ?case by (simp add: download_folder_def init [unfolded download_folder_def, simplified])
next
  case (step s a s')
  note len = reach_length [OF step.hyps(1)]
  show ?case
  proof (cases a)
    case (Run i)
    with step.hyps(2) obtain sh t where i: "i < length (tasks s)"
      and ts: "tstep L (threads_num B) (data B ! i) (shared s) (tasks s ! i) = Some (sh, t)"
      and s': "s' = s\<lparr>shared := sh, tasks := (tasks s)[i := t]\<rparr>"
      by (auto split: if_splits option.splits)
    show ?thesis
    proof (intro allI impI)
      fix j assume "j < length (tasks s')"
      then have j: "j < length (tasks s)" by (simp add: s')
      from step.IH j have Pj: "P (data B ! j) (shared s) (tasks s ! j)" by simp
      show "P (data B ! j) (shared s') (tasks s' ! j)"
      proof (cases "j = i")
        case True
        with own [OF _ ts] Pj i show ?thesis by (simp add: s')
      next
        case False
        with dist i j len have "local_name L (data B ! j) \<noteq> local_name L (data B ! i)"
          by (simp add: distinct_conv_nth)
        from tstep_fs_frame [OF ts this]
        have "fs sh (local_name L (data B ! j)) = fs (shared s) (local_name L (data B ! j))" .
        from frame [OF Pj this] False show ?thesis by (simp add: s')
      qed
    qed
  next
    case Poll
    with step show ?thesis by (auto split: if_splits)
  next
    case Interrupt
    with step.hyps(2) have s': "s' = s\<lparr>shared := (shared s)\<lparr>event := True\<rparr>, driver := Joining 0\<rparr>"
      by (auto split: if_splits)
    show ?thesis
    proof (intro allI impI)
      fix j assume "j < length (tasks s')"
      with step.IH have "P (data B ! j) (shared s) (tasks s ! j)" by (simp add: s')
      from frame [OF this, of "(shared s)\<lparr>event := True\<rparr>"] show "P (data B ! j) (shared s') (tasks s' ! j)"
        by (simp add: s')
    qed
  next
    case Join
    with step show ?thesis by (auto split: if_splits driver.splits)
  qed
qed

lemma file_inv_step:
  "file_inv L B f sh t \<Longrightarrow> tstep L K f sh t = Some (sh', t') \<Longrightarrow> file_inv L B f sh' t'"
  by (cases "pc t")
    (auto simp: tstep_def file_inv_def ended_def matches_def served_body_def answer_def
      report_def release_def local_name_def Let_def
      split: if_splits option.splits fetched.splits reply.splits page.splits list.splits)

lemma file_inv_frame:
  "file_inv L B f sh t \<Longrightarrow> fs sh' (local_name L f) = fs sh (local_name L f) \<Longrightarrow>
   file_inv L B f sh' t"
  by (cases "pc t") (simp_all add: file_inv_def Let_def)

lemma reach_file_inv:
  assumes "reach L B s" and "distinct (map (local_name L) (data B))" and "i < length (tasks s)"
  shows "file_inv L B (data B ! i) (shared s) (tasks s ! i)"
proof -
  have "\<forall>i < length (tasks s). file_inv L B (data B ! i) (shared s) (tasks s ! i)"
  proof (rule reach_framed [where P = "file_inv L B", OF assms(2) _ _ _ assms(1)])
    show "file_inv L B f (shared (download_folder B)) new_task" for f
      by (simp add: file_inv_def download_folder_def new_task_def)
  qed (erule file_inv_step, assumption, erule file_inv_frame, assumption)
  with assms(3) show ?thesis by simp
qed

lemma skip_one_inv_step:
  "skip_one_inv L B f sh t \<Longrightarrow> tstep L K f sh t = Some (sh', t') \<Longrightarrow>
   skip_one_inv L B f sh' t'"
  by (cases "pc t")
    (auto simp: tstep_def skip_one_inv_def matches_def skip_report_def
      report_def release_def local_name_def Let_def
      split: if_splits option.splits fetched.splits reply.splits page.splits list.splits)

lemma skip_one_inv_frame:
  "skip_one_inv L B f sh t \<Longrightarrow> fs sh' (local_name L f) = fs sh (local_name L f) \<Longrightarrow>
   skip_one_inv L B f sh' t"
  by (cases "pc t") (simp_all add: skip_one_inv_def)

lemma reach_skip_one_inv:
  assumes "reach L B s" and "distinct (map (local_name L) (data B))" and "i < length (tasks s)"
  shows "skip_one_inv L B (data B ! i) (shared s) (tasks s ! i)"
proof -
  have "\<forall>i < length (tasks s). skip_one_inv L B (data B ! i) (shared s) (tasks s ! i)"
  proof (rule reach_framed [where P = "skip_one_inv L B", OF assms(2) _ _ _ assms(1)])
    show "skip_one_inv L B f (shared (download_folder B)) new_task" for f
      by (simp add: skip_one_inv_def download_folder_def new_task_def)
  qed (erule skip_one_inv_step, assumption, erule skip_one_inv_frame, assumption)
  with assms(3) show ?thesis by simp
qed

lemma reach_join_inv: "reach L B s \<Longrightarrow> join_inv s"
proof (induction rule: reach.induct)
  case start
  show ?case by (simp add: join_inv_def download_folder_def)
next
  case (step s a s')
  show ?case
  proof (cases a)
    case (Run k)
    with step.hyps(2) obtain sh t where k: "k < length (tasks s)"
      and ts: "tstep L (threads_num B) (data B ! k) (shared s) (tasks s ! k) = Some (sh, t)"
      and s': "s' = s\<lparr>shared := sh, tasks := (tasks s)[k := t]\<rparr>"
      by (auto split: if_splits option.splits)
    from tstep_alive [OF ts] have alive: "pc (tasks s ! k) \<noteq> Done" .
    show ?thesis
    proof (cases "driver s")
      case Waiting
      then show ?thesis by (simp add: join_inv_def s')
    next
      case (Joining i)
      with step.IH have d: "list_all (\<lambda>t. pc t = Done) (take i (tasks s))"
        by (simp add: join_inv_def)
      have "i \<le> k"
      proof (rule ccontr)
        assume "\<not> i \<le> k"
        with k d have "pc (tasks s ! k) = Done"
          by (simp add: list_all_length)
        with alive show False by simp
      qed
      with d Joining show ?thesis
        by (simp add: join_inv_def s')
    next
      case Finished
      with step.IH k alive show ?thesis
        by (auto simp: join_inv_def all_dead_def list_all_length)
    next
      case Exited
      with step.IH k alive show ?thesis
        by (auto simp: join_inv_def all_dead_def list_all_length)
    qed
  next
    case Poll
    with step show ?thesis by (auto simp: join_inv_def all_dead_def split: if_splits)
  next
    case Interrupt
    with step show ?thesis by (auto simp: join_inv_def split: if_splits)
  next
    case Join
    with step show ?thesis
      by (auto simp: join_inv_def all_dead_def take_Suc_conv_app_nth
          split: if_splits driver.splits)
  qed
qed

lemma ended_intact: "ended L B f (fs sh (local_name L f)) out \<Longrightarrow> intact L B sh f"
  by (auto simp: ended_def intact_def matches_def split: option.splits outcome.splits)

text \<open>
  C4. If the local names of the batch are pairwise different, then in every reachable
  state in which the driver has exited after an interrupt every thread has ended, and
  every target file stands as its task ended: absent for a failed or cancelled task,
  complete for a completed one, the verified earlier copy for a skipped one. So no
  partially written file is left. The driver reaches its exit only through the joins,
  each of which waits for its thread to end.
\<close>

theorem cancellation_leaves_no_partial_file:
  assumes "reach L B s" and "distinct (map (local_name L) (data B))" and "driver s = Exited"
  shows "all_dead s
       \<and> (\<forall>i < length (data B).
            ended L B (data B ! i) (fs (shared s) (local_name L (data B ! i)))
              (outcome (tasks s ! i))
          \<and> intact L B (shared s) (data B ! i))"
proof (intro conjI allI impI)
  from reach_join_inv [OF assms(1)] assms(3) show dead: "all_dead s"
    by (simp add: join_inv_def)
  fix i assume "i < length (data B)"
  with reach_length [OF assms(1)] have i: "i < length (tasks s)" by simp
  with dead have "pc (tasks s ! i) = Done"
    by (simp add: all_dead_def list_all_length)
  with reach_file_inv [OF assms(1,2) i]
  show e: "ended L B (data B ! i) (fs (shared s) (local_name L (data B ! i)))
             (outcome (tasks s ! i))"
    by (simp add: file_inv_def Let_def)
  then show "intact L B (shared s) (data B ! i)"
    by (rule ended_intact)
qed

theorem cancellation_leaves_no_partial_file_witness:
  "reach ex_lib ex_two (the (run ex_lib ex_two ex_interrupt_two (download_folder ex_two)))
   \<and> distinct (map (local_name ex_lib) (data ex_two))
   \<and> driver (the (run ex_lib ex_two ex_interrupt_two (download_folder ex_two))) = Exited
   \<and> present ex_lib ex_two (the (run ex_lib ex_two (times 8 (Run 0)) (download_folder ex_two)))
       = [True, False]
   \<and> all_dead (the (run ex_lib ex_two ex_interrupt_two (download_folder ex_two)))
   \<and> intact ex_lib ex_two
        (shared (the (run ex_lib ex_two ex_interrupt_two (download_folder ex_two))))
        (data ex_two ! 0)
   \<and> present ex_lib ex_two (the (run ex_lib ex_two ex_interrupt_two (download_folder ex_two)))
       = [False, False]"
proof -
  let ?s = "the (run ex_lib ex_two ex_interrupt_two (download_folder ex_two))"
  have r: "reach ex_lib ex_two ?s"
    by (rule run_reach_the; code_simp)
  have d: "distinct (map (local_name ex_lib) (data ex_two))"
    by code_simp
  have e: "driver ?s = Exited"
    by code_simp
  have p: "present ex_lib ex_two (the (run ex_lib ex_two (times 8 (Run 0)) (download_folder ex_two)))
             = [True, False]"
    by code_simp
  have q: "present ex_lib ex_two ?s = [False, False]"
    by code_simp
  have l: "0 < length (data ex_two)"
    by code_simp
  from cancellation_leaves_no_partial_file [OF r d e] l
  have "all_dead ?s \<and> intact ex_lib ex_two (shared ?s) (data ex_two ! 0)"
    by blast
  with r d e p q show ?thesis
    by blast
qed

section \<open>Skipped files in the counters\<close>

text \<open>
  C3, as the claim states it, fails: of the two files of \<open>ex_mixed\<close> one is skipped and
  one completed; \<open>completed_files\<close> and the summary's total are 1, the skip appears only
  in the skipped line, and the 6 bytes counted include the 3 declared bytes of the
  skipped file although only one request was made.
\<close>

theorem skip_counted_as_completed_counterexample:
  "map_option (map outcome \<circ> tasks)
      (run ex_lib ex_mixed ex_skip_and_download (download_folder ex_mixed))
     = Some [Some Skipped, Some Completed]
   \<and> map_option (completed_files \<circ> progress \<circ> shared)
      (run ex_lib ex_mixed ex_skip_and_download (download_folder ex_mixed)) = Some 1
   \<and> map_option (total_line \<circ> finish \<circ> progress \<circ> shared)
      (run ex_lib ex_mixed ex_skip_and_download (download_folder ex_mixed)) = Some 1
   \<and> map_option (skipped_line \<circ> finish \<circ> progress \<circ> shared)
      (run ex_lib ex_mixed ex_skip_and_download (download_folder ex_mixed)) = Some (Some 1)
   \<and> map_option (requests \<circ> shared)
      (run ex_lib ex_mixed ex_skip_and_download (download_folder ex_mixed)) = Some 1
   \<and> map_option bytes_counted
      (run ex_lib ex_mixed ex_skip_and_download (download_folder ex_mixed)) = Some 6"
  by code_simp

lemma counts_nonneg_step:
  assumes "counts_nonneg t" and "tstep L K f sh t = Some (sh', t')"
  shows "counts_nonneg t'"
  using tstep_report [OF assms(2)] assms(1)
  by (auto simp: reported_def update_def counts_nonneg_def)

lemma reach_counts_nonneg:
  assumes "reach L B s"
  shows "\<forall>t\<in>set (tasks s). counts_nonneg t"
proof -
  have "\<forall>i < length (tasks s). counts_nonneg (tasks s ! i)"
  proof (rule reach_local [where P = "\<lambda>f. counts_nonneg", OF _ _ assms])
    show "counts_nonneg new_task"
      by (simp add: counts_nonneg_def new_task_def new_ProgressTracker_def)
  qed (rule counts_nonneg_step)
  then show ?thesis by (auto simp: in_set_conv_nth)
qed

lemma nth_le_sum_list_int:
  fixes g :: "'a \<Rightarrow> int"
  shows "\<forall>x\<in>set xs. 0 \<le> g x \<Longrightarrow> i < length xs \<Longrightarrow> g (xs ! i) \<le> (\<Sum>x\<leftarrow>xs. g x)"
proof (induction xs arbitrary: i)
  case Nil
  then show ?case by simp
next
  case (Cons x xs)
  from Cons.prems(1) have nn: "0 \<le> (\<Sum>x\<leftarrow>xs. g x)"
    by (intro sum_list_nonneg) auto
  show ?case
  proof (cases i)
    case 0
    with nn show ?thesis by simp
  next
    case (Suc j)
    with Cons.prems have "g (xs ! j) \<le> (\<Sum>x\<leftarrow>xs. g x)"
      by (intro Cons.IH) auto
    moreover from Cons.prems(1) have "0 \<le> g x" by simp
    ultimately show ?thesis by (simp add: Suc)
  qed
qed

lemma skip_safety:
  assumes r: "reach L B s" and d: "distinct (map (local_name L) (data B))"
    and i: "i < length (data B)" and m: "matches L B (data B ! i)"
  shows "(pc (tasks s ! i) = Pending \<or> pc (tasks s ! i) = Verifying
          \<or> pc (tasks s ! i) = ReleaseReturn \<or> pc (tasks s ! i) = Done)
       \<and> (pc (tasks s ! i) = ReleaseReturn \<or> pc (tasks s ! i) = Done \<longrightarrow> skip_counted B s i)"
proof (intro conjI impI)
  from i reach_length [OF r] have i': "i < length (tasks s)" by simp
  note inv = reach_skip_one_inv [OF r d i']
  from inv m show "pc (tasks s ! i) = Pending \<or> pc (tasks s ! i) = Verifying
          \<or> pc (tasks s ! i) = ReleaseReturn \<or> pc (tasks s ! i) = Done"
    by (cases "pc (tasks s ! i)") (simp_all add: skip_one_inv_def)
  assume "pc (tasks s ! i) = ReleaseReturn \<or> pc (tasks s ! i) = Done"
  with inv m have o: "outcome (tasks s ! i) = Some Skipped"
    and mi: "mine (tasks s ! i) = skip_report (data B ! i)"
    by (auto simp: skip_one_inv_def)
  note si = reach_sum_inv [OF r]
  from reach_counts_nonneg [OF r] have "\<forall>t\<in>set (tasks s). 0 \<le> skipped_files (mine t)"
    by (simp add: counts_nonneg_def)
  from nth_le_sum_list_int [OF this i'] mi
  have "1 \<le> (\<Sum>t\<leftarrow>tasks s. skipped_files (mine t))"
    by (simp add: skip_report_def update_def new_ProgressTracker_def)
  with si have one: "1 \<le> skipped_files (progress (shared s))"
    by (simp add: sum_inv_def)
  from o mi si one show "skip_counted B s i"
    by (simp add: skip_counted_def skip_report_def update_def new_ProgressTracker_def
        sum_inv_def finish_def)
qed

lemma release_return_ends:
  "pc t = ReleaseReturn \<Longrightarrow> \<exists>sh' t'. tstep L K f sh t = Some (sh', t') \<and> pc t' = Done"
  by (cases "release K sh") (simp_all add: tstep_def)

lemma verifying_match_skips:
  assumes "pc t = Verifying" and "fs sh (local_name L f) = disk B (local_name L f)"
    and "matches L B f"
  shows "\<exists>sh' t'. tstep L K f sh t = Some (sh', t') \<and> pc t' = ReleaseReturn"
  using assms
  by (cases "disk B (local_name L f)")
    (simp_all add: tstep_def matches_def local_name_def report_def)

lemma pending_acquires:
  "pc t = Pending \<Longrightarrow> 0 < sem sh \<Longrightarrow>
   \<exists>sh' t'. tstep L K f sh t = Some (sh', t') \<and> pc t' = Verifying"
  by (simp add: tstep_def)

lemma ends_from_release:
  assumes "i < length (tasks s)" and "pc (tasks s ! i) = ReleaseReturn"
  shows "\<exists>s'. step L B (Run i) s = Some s' \<and> pc (tasks s' ! i) = Done"
proof -
  from release_return_ends [OF assms(2)] obtain sh t where
    "tstep L (threads_num B) (data B ! i) (shared s) (tasks s ! i) = Some (sh, t)"
    and "pc t = Done"
    by blast
  with step_RunI [OF assms(1) this(1)] assms(1) show ?thesis
    by simp
qed

lemma ends_from_verifying:
  assumes r: "reach L B s" and d: "distinct (map (local_name L) (data B))"
    and i: "i < length (data B)" and m: "matches L B (data B ! i)"
    and p: "pc (tasks s ! i) = Verifying"
  shows "\<exists>s'. step L B (Run i) s = Some s' \<and> pc (tasks s' ! i) = ReleaseReturn"
proof -
  from i reach_length [OF r] have i': "i < length (tasks s)" by simp
  from reach_skip_one_inv [OF r d i'] m p
  have "fs (shared s) (local_name L (data B ! i)) = disk B (local_name L (data B ! i))"
    by (simp add: skip_one_inv_def)
  from verifying_match_skips [OF p this m] obtain sh t where
    "tstep L (threads_num B) (data B ! i) (shared s) (tasks s ! i) = Some (sh, t)"
    and "pc t = ReleaseReturn"
    by blast
  with step_RunI [OF i' this(1)] i' show ?thesis
    by simp
qed

lemma ends_from_pending:
  assumes "i < length (tasks s)" and "pc (tasks s ! i) = Pending" and "0 < sem (shared s)"
  shows "\<exists>s'. step L B (Run i) s = Some s' \<and> pc (tasks s' ! i) = Verifying"
proof -
  from pending_acquires [OF assms(2,3)] obtain sh t where
    "tstep L (threads_num B) (data B ! i) (shared s) (tasks s ! i) = Some (sh, t)"
    and "pc t = Verifying"
    by blast
  with step_RunI [OF assms(1) this(1)] assms(1) show ?thesis
    by simp
qed

lemma skip_in_two:
  assumes r: "reach L B s" and d: "distinct (map (local_name L) (data B))"
    and i: "i < length (data B)" and m: "matches L B (data B ! i)"
    and p: "pc (tasks s ! i) = Verifying"
  shows "\<exists>s'. run L B (times 2 (Run i)) s = Some s' \<and> pc (tasks s' ! i) = Done"
proof -
  from ends_from_verifying [OF r d i m p] obtain u where
    u: "step L B (Run i) s = Some u" and pu: "pc (tasks u ! i) = ReleaseReturn"
    by blast
  from reach.step [OF r u] have ru: "reach L B u" .
  from i reach_length [OF ru] have "i < length (tasks u)" by simp
  from ends_from_release [OF this pu] obtain s' where
    "step L B (Run i) u = Some s'" and "pc (tasks s' ! i) = Done"
    by blast
  with u show ?thesis
    by (simp add: times_def numeral_2_eq_2)
qed

lemma skip_in_three:
  assumes r: "reach L B s" and d: "distinct (map (local_name L) (data B))"
    and i: "i < length (data B)" and m: "matches L B (data B ! i)"
    and p: "pc (tasks s ! i) = Pending" and free: "0 < sem (shared s)"
  shows "\<exists>s'. run L B (times 3 (Run i)) s = Some s' \<and> pc (tasks s' ! i) = Done"
proof -
  from i reach_length [OF r] have "i < length (tasks s)" by simp
  from ends_from_pending [OF this p free] obtain u where
    u: "step L B (Run i) s = Some u" and pu: "pc (tasks u ! i) = Verifying"
    by blast
  from reach.step [OF r u] have ru: "reach L B u" .
  from skip_in_two [OF ru d i m pu] obtain s' where
    "run L B (times 2 (Run i)) u = Some s'" and "pc (tasks s' ! i) = Done"
    by blast
  with u show ?thesis
    by (simp add: times_def numeral_2_eq_2 numeral_3_eq_3)
qed

lemma skip_within_three:
  assumes r: "reach L B s" and d: "distinct (map (local_name L) (data B))"
    and i: "i < length (data B)" and m: "matches L B (data B ! i)"
    and free: "pc (tasks s ! i) \<noteq> Pending \<or> 0 < sem (shared s)"
  shows "\<exists>n s'. n \<le> 3 \<and> run L B (times n (Run i)) s = Some s' \<and> pc (tasks s' ! i) = Done"
proof -
  from i reach_length [OF r] have i': "i < length (tasks s)" by simp
  from skip_safety [OF r d i m]
  consider "pc (tasks s ! i) = Pending" | "pc (tasks s ! i) = Verifying"
    | "pc (tasks s ! i) = ReleaseReturn" | "pc (tasks s ! i) = Done"
    by blast
  then show ?thesis
  proof cases
    case 1
    with free have "0 < sem (shared s)" by simp
    from skip_in_three [OF r d i m 1 this] show ?thesis
      by (intro exI [of _ 3]) simp
  next
    case 2
    from skip_in_two [OF r d i m 2] show ?thesis
      by (intro exI [of _ 2]) simp
  next
    case 3
    from ends_from_release [OF i' 3] obtain s' where
      "step L B (Run i) s = Some s'" and "pc (tasks s' ! i) = Done"
      by blast
    then have "(1::nat) \<le> 3 \<and> run L B (times 1 (Run i)) s = Some s' \<and> pc (tasks s' ! i) = Done"
      by (simp add: times_def)
    then show ?thesis by blast
  next
    case 4
    then have "(0::nat) \<le> 3 \<and> run L B (times 0 (Run i)) s = Some s \<and> pc (tasks s ! i) = Done"
      by (simp add: times_def)
    then show ?thesis by blast
  qed
qed

text \<open>
  C3, amended. With pairwise different local names, a task whose file is present with the
  expected hash only waits for its permit, verifies, releases and ends. Once it has
  reported (it stands at its release or has ended) it is skipped and counted as
  \<open>skip_counted\<close> says: once in \<open>skipped_files\<close>, not in \<open>completed_files\<close> or
  \<open>failed_files\<close>, with the declared size of its file added to \<open>downloaded_bytes\<close>;
  the summary line \<^verbatim>\<open>Total: N files\<close> prints \<open>completed_files\<close>, which leaves the skip
  out, and the line \<^verbatim>\<open>Skipped: N files\<close> is printed and includes it. The task does get
  there: from every reachable state in which it has its permit or a permit is free, at
  most three steps of its own end it in that way, and with a limit of at least one its
  first three steps from the start of the batch do.
\<close>

theorem present_file_skipped:
  assumes "reach L B s" and "distinct (map (local_name L) (data B))"
    and "i < length (data B)" and "matches L B (data B ! i)"
  shows "(pc (tasks s ! i) = Pending \<or> pc (tasks s ! i) = Verifying
          \<or> pc (tasks s ! i) = ReleaseReturn \<or> pc (tasks s ! i) = Done)
       \<and> (pc (tasks s ! i) = ReleaseReturn \<or> pc (tasks s ! i) = Done \<longrightarrow> skip_counted B s i)
       \<and> (pc (tasks s ! i) \<noteq> Pending \<or> 0 < sem (shared s) \<longrightarrow>
            (\<exists>n s'. n \<le> 3 \<and> run L B (times n (Run i)) s = Some s'
                \<and> pc (tasks s' ! i) = Done \<and> skip_counted B s' i))
       \<and> (1 \<le> threads_num B \<longrightarrow>
            (\<exists>s'. run L B (times 3 (Run i)) (download_folder B) = Some s'
                \<and> pc (tasks s' ! i) = Done \<and> skip_counted B s' i))"
proof (intro conjI impI)
  note safe = skip_safety [OF assms]
  from safe show "pc (tasks s ! i) = Pending \<or> pc (tasks s ! i) = Verifying
          \<or> pc (tasks s ! i) = ReleaseReturn \<or> pc (tasks s ! i) = Done"
    by blast
  {
    assume "pc (tasks s ! i) = ReleaseReturn \<or> pc (tasks s ! i) = Done"
    with safe show "skip_counted B s i" by blast
  }
  {
    assume "pc (tasks s ! i) \<noteq> Pending \<or> 0 < sem (shared s)"
    from skip_within_three [OF assms this] obtain n s' where
      n: "n \<le> 3" and run: "run L B (times n (Run i)) s = Some s'"
      and dn: "pc (tasks s' ! i) = Done"
      by blast
    from run_reach [OF assms(1) run] have "reach L B s'" .
    from skip_safety [OF this assms(2,3,4)] dn have "skip_counted B s' i" by blast
    with n run dn
    show "\<exists>n s'. n \<le> 3 \<and> run L B (times n (Run i)) s = Some s'
            \<and> pc (tasks s' ! i) = Done \<and> skip_counted B s' i"
      by blast
  }
  {
    assume k: "1 \<le> threads_num B"
    from assms(3) have ne: "data B \<noteq> []" by auto
    then have r0: "reach L B (download_folder B)" by (rule reach.start)
    from assms(3) have p0: "pc (tasks (download_folder B) ! i) = Pending"
      by (simp add: download_folder_def new_task_def)
    from k have "0 < sem (shared (download_folder B))"
      by (simp add: download_folder_def)
    from skip_in_three [OF r0 assms(2,3,4) p0 this] obtain s' where
      run: "run L B (times 3 (Run i)) (download_folder B) = Some s'"
      and dn: "pc (tasks s' ! i) = Done"
      by blast
    from run_reach [OF r0 run] have "reach L B s'" .
    from skip_safety [OF this assms(2,3,4)] dn have "skip_counted B s' i" by blast
    with run dn
    show "\<exists>s'. run L B (times 3 (Run i)) (download_folder B) = Some s'
            \<and> pc (tasks s' ! i) = Done \<and> skip_counted B s' i"
      by blast
  }
qed

theorem present_file_skipped_witness:
  "reach ex_lib ex_mixed
     (the (run ex_lib ex_mixed ex_skip_and_download (download_folder ex_mixed)))
   \<and> distinct (map (local_name ex_lib) (data ex_mixed))
   \<and> matches ex_lib ex_mixed (data ex_mixed ! 0)
   \<and> 1 \<le> threads_num ex_mixed
   \<and> pc (tasks (the (run ex_lib ex_mixed ex_skip_and_download (download_folder ex_mixed))) ! 0)
       = Done
   \<and> skip_counted ex_mixed
        (the (run ex_lib ex_mixed ex_skip_and_download (download_folder ex_mixed))) 0
   \<and> skipped_line (finish (progress (shared
        (the (run ex_lib ex_mixed ex_skip_and_download (download_folder ex_mixed))))))
       = Some 1
   \<and> total_line (finish (progress (shared
        (the (run ex_lib ex_mixed ex_skip_and_download (download_folder ex_mixed))))))
       = 1"
proof -
  let ?s = "the (run ex_lib ex_mixed ex_skip_and_download (download_folder ex_mixed))"
  have r: "reach ex_lib ex_mixed ?s"
    by (rule run_reach_the; code_simp)
  have d: "distinct (map (local_name ex_lib) (data ex_mixed))"
    by code_simp
  have l: "0 < length (data ex_mixed)"
    by code_simp
  have m: "matches ex_lib ex_mixed (data ex_mixed ! 0)"
    by code_simp
  have k: "1 \<le> threads_num ex_mixed"
    by code_simp
  have p: "pc (tasks ?s ! 0) = Done"
    by code_simp
  have z: "skipped_files (progress (shared ?s)) = 1" "completed_files (progress (shared ?s)) = 1"
    by code_simp+
  from present_file_skipped [OF r d l m] p have c: "skip_counted ex_mixed ?s 0"
    by blast
  with z have "skipped_line (finish (progress (shared ?s))) = Some 1"
    "total_line (finish (progress (shared ?s))) = 1"
    by (simp_all add: skip_counted_def)
  with r d m k p c show ?thesis
    by blast
qed

end
